theory Spec2Isabelle
  imports Main "HOL-Library.Multiset"
begin

section \<open>The external link linter (apps/docs/scripts/lint-external-links.ts)\<close>

text \<open>
  The script reads markdown files, extracts the external links, checks each unique URL
  over HTTP and reports the failures. A JavaScript string is modelled as a \<open>string\<close>,
  one \<open>char\<close> per code unit (the code units below 256). What the script takes from its
  platform is made explicit:
  the WHATWG URL parser (\<open>new URL\<close>) is a parameter of every function that calls it, the
  network is a parameter of the checker, the order in which pending requests settle
  is a parameter (a schedule) of the worker pool, and the comparison of strings by which
  the report is sorted (\<open>localeCompare\<close>) is a parameter of \<open>main\<close>, given for the root
  collation in \<open>localeCompare_root\<close>.
\<close>

subsection \<open>Constants\<close>

definition TIMEOUT_MS :: nat where
  "TIMEOUT_MS = 10000"

definition MAX_CONCURRENCY :: nat where
  "MAX_CONCURRENCY = 15"

definition ACCEPTED_STATUSES :: "nat set" where
  "ACCEPTED_STATUSES = {403, 429}"

subsection \<open>The checker: fetchWithTimeout and checkUrl\<close>

text \<open>
  A value thrown by \<open>fetch\<close>: an \<open>Error\<close> object with its name and message, or
  anything else (\<open>error instanceof Error\<close> is false).
\<close>

datatype thrown = JsError string string | NotAnError

datatype http_method = HEAD | GET

text \<open>
  What one request does when nothing cancels it: it resolves with a status after so many
  milliseconds, rejects after so many milliseconds, or never settles.
\<close>

datatype fetch_behaviour = Resolves nat nat | Rejects nat thrown | NeverSettles

type_synonym network = "http_method \<Rightarrow> string \<Rightarrow> fetch_behaviour"

text \<open>The rejection of a fetch whose signal was aborted by \<open>controller.abort()\<close>.\<close>

definition abortError :: thrown where
  "abortError = JsError ''AbortError'' ''This operation was aborted''"

text \<open>
  \<open>fetchWithTimeout\<close>: the timer set to \<open>TIMEOUT_MS\<close> aborts the request unless the
  request settled first (the \<open>finally\<close> block clears the timer then).
  \<open>Inl\<close> is the exception the \<open>await\<close> raises, \<open>Inr\<close> the status of the response.
\<close>

definition fetchWithTimeout :: "network \<Rightarrow> string \<Rightarrow> http_method \<Rightarrow> thrown + nat" where
  "fetchWithTimeout net url m =
     (case net m url of
        Resolves t status \<Rightarrow> if t < TIMEOUT_MS then Inr status else Inl abortError
      | Rejects t e \<Rightarrow> if t < TIMEOUT_MS then Inl e else Inl abortError
      | NeverSettles \<Rightarrow> Inl abortError)"

text \<open>A request that the timer aborts.\<close>

definition timesOut :: "fetch_behaviour \<Rightarrow> bool" where
  "timesOut b =
     (case b of
        Resolves t status \<Rightarrow> TIMEOUT_MS \<le> t
      | Rejects t e \<Rightarrow> TIMEOUT_MS \<le> t
      | NeverSettles \<Rightarrow> True)"

text \<open>
  The result of \<open>checkUrl\<close>, an object \<open>{ ok, reason? }\<close>: the pair of \<open>ok\<close> and of the
  reason, \<open>None\<close> when the object has no reason.
\<close>

type_synonym check_result = "bool \<times> string option"

text \<open>The decimal digits of a number, as a template literal prints it.\<close>

function decimal :: "nat \<Rightarrow> string" where
  "decimal n = (if n < 10 then [''0123456789'' ! n] else decimal (n div 10) @ [''0123456789'' ! (n mod 10)])"
  by pat_completeness auto
termination
  by (relation "measure id") auto

declare decimal.simps [simp del]

text \<open>The condition of line 195, under which the GET request is sent.\<close>

definition escalates :: "nat \<Rightarrow> bool" where
  "escalates status = (status \<ge> 400 \<or> status = 429)"

text \<open>The condition as the specification simplifies it.\<close>

definition escalates_spec :: "nat \<Rightarrow> bool" where
  "escalates_spec status = (status \<ge> 400)"

definition checkUrl :: "network \<Rightarrow> string \<Rightarrow> check_result" where
  "checkUrl net url =
     (case (case fetchWithTimeout net url HEAD of
              Inl e \<Rightarrow> Inl e
            | Inr status \<Rightarrow>
                if escalates status then fetchWithTimeout net url GET else Inr status) of
        Inr status \<Rightarrow>
          if status = 404 then (False, Some ''HTTP 404'')
          else if status \<in> ACCEPTED_STATUSES then (True, None)
          else if status < 200 \<or> status \<ge> 400
            then (False, Some (''HTTP '' @ decimal status))
          else (True, None)
      | Inl (JsError name message) \<Rightarrow>
          if name = ''AbortError'' then (False, Some ''timeout'')
          else (False, Some message)
      | Inl NotAnError \<Rightarrow> (False, Some ''unknown error''))"

text \<open>A network used in the examples.\<close>

definition demo_net :: network where
  "demo_net m url =
     (if url = ''https://slow.example/'' then (case m of HEAD \<Rightarrow> Resolves 35 405 | GET \<Rightarrow> NeverSettles)
      else if url = ''https://gone.example/'' then Resolves 20 404
      else if url = ''https://head.example/'' then (case m of HEAD \<Rightarrow> Resolves 20 404 | GET \<Rightarrow> Resolves 80 200)
      else if url = ''https://down.example/'' then Rejects 5 (JsError ''TypeError'' ''fetch failed'')
      else if url = ''https://blocked.example/'' then Resolves 20 403
      else if url = ''https://error.example/'' then (case m of HEAD \<Rightarrow> Resolves 20 500 | GET \<Rightarrow> Resolves 20 503)
      else Resolves 20 200)"

subsection \<open>Strings\<close>

text \<open>
  The white space of \<open>String.prototype.trim\<close> and of the class \<open>\s\<close>, among the code
  units below 256: TAB, LF, VT, FF, CR, SPACE and NBSP.
\<close>

definition isWhiteSpace :: "char \<Rightarrow> bool" where
  "isWhiteSpace c = (c \<in> set [CHR 0x09, CHR 0x0A, CHR 0x0B, CHR 0x0C, CHR 0x0D, CHR 0x20, CHR 0xA0])"

definition trim :: "string \<Rightarrow> string" where
  "trim s = dropWhile isWhiteSpace (rev (dropWhile isWhiteSpace (rev s)))"

text \<open>The line terminators, which the dot of a regular expression does not match.\<close>

definition isLineTerminator :: "char \<Rightarrow> bool" where
  "isLineTerminator c = (c = CHR 0x0A \<or> c = CHR 0x0D)"

text \<open>The class \<open>\w\<close>: the ASCII letters, the digits and the underscore.\<close>

definition isWordChar :: "char \<Rightarrow> bool" where
  "isWordChar c =
     (let n = (of_char c :: nat)
      in (48 \<le> n \<and> n \<le> 57) \<or> (65 \<le> n \<and> n \<le> 90) \<or> n = 95 \<or> (97 \<le> n \<and> n \<le> 122))"

text \<open>
  Case folding of the flag \<open>i\<close> without the flag \<open>u\<close>: a code unit from 128 on is never
  identified with an ASCII letter, so only the ASCII letters fold.
\<close>

definition asciiLower :: "char \<Rightarrow> char" where
  "asciiLower c =
     (let n = (of_char c :: nat) in if 65 \<le> n \<and> n \<le> 90 then char_of (n + 32) else c)"

text \<open>\<open>String.prototype.toLowerCase\<close> on the code units below 256.\<close>

definition toLowerCase :: "string \<Rightarrow> string" where
  "toLowerCase s =
     map (\<lambda>c. let n = (of_char c :: nat)
              in if (65 \<le> n \<and> n \<le> 90) \<or> (192 \<le> n \<and> n \<le> 222 \<and> n \<noteq> 215)
                 then char_of (n + 32) else c) s"

definition indexOf :: "char \<Rightarrow> string \<Rightarrow> nat" where
  "indexOf c s = length (takeWhile (\<lambda>x. x \<noteq> c) s)"

definition slice :: "nat \<Rightarrow> nat \<Rightarrow> string \<Rightarrow> string" where
  "slice a b s = take (b - a) (drop a s)"

text \<open>\<open>s.split("\n")\<close>: the pieces between the line feeds; the empty string gives one piece.\<close>

fun splitNewline :: "string \<Rightarrow> string list" where
  "splitNewline [] = [[]]"
| "splitNewline (c # cs) =
     (if c = CHR 0x0A then [] # splitNewline cs
      else (case splitNewline cs of [] \<Rightarrow> [[c]] | p # ps \<Rightarrow> (c # p) # ps))"

text \<open>\<open>(match.match(/\n/g) ?? []).length\<close>: the number of line feeds.\<close>

definition countNewlines :: "string \<Rightarrow> nat" where
  "countNewlines s = length (filter (\<lambda>c. c = CHR 0x0A) s)"

subsection \<open>Code blocks and line numbers\<close>

definition fence :: string where
  "fence = ''```''"

text \<open>
  The lazy \<open>[\s\S]*?\<close> followed by the closing fence: the shortest run of characters
  after which a fence stands, with what follows that fence.
\<close>

fun lazyUntilFence :: "string \<Rightarrow> (string \<times> string) option" where
  "lazyUntilFence [] = None"
| "lazyUntilFence (c # cs) =
     (if take 3 (c # cs) = fence then Some ([], drop 3 (c # cs))
      else (case lazyUntilFence cs of
              None \<Rightarrow> None
            | Some (body, rest) \<Rightarrow> Some (c # body, rest)))"

text \<open>
  \<open>CODE_BLOCK_REGEX\<close> tried at the start of a string: the matched text and the text after
  the match.
\<close>

definition codeBlockAt :: "string \<Rightarrow> (string \<times> string) option" where
  "codeBlockAt s =
     (if take 3 s = fence
      then (case lazyUntilFence (drop 3 s) of
              None \<Rightarrow> None
            | Some (body, rest) \<Rightarrow> Some (fence @ body @ fence, rest))
      else None)"

lemma take3_fence: "take 3 s = fence \<Longrightarrow> 3 \<le> length s"
proof -
  assume "take 3 s = fence"
  then have "length (take 3 s) = 3" by (simp add: fence_def)
  then show ?thesis by simp
qed

lemma lazyUntilFence_length:
  "lazyUntilFence s = Some (body, rest) \<Longrightarrow> length s = length body + 3 + length rest"
proof (induction s arbitrary: body)
  case Nil
  then show ?case by simp
next
  case (Cons c cs)
  show ?case
  proof (cases "take 3 (c # cs) = fence")
    case True
    then have "3 \<le> length (c # cs)" by (rule take3_fence)
    moreover from True Cons.prems have "body = []" "rest = drop 3 (c # cs)" by simp_all
    ultimately show ?thesis by simp
  next
    case False
    with Cons.prems obtain b where "lazyUntilFence cs = Some (b, rest)" and "body = c # b"
      by (auto split: option.splits)
    with Cons.IH [of b] show ?thesis by simp
  qed
qed

lemma codeBlockAt_shorter:
  "codeBlockAt s = Some (m, rest) \<Longrightarrow> length rest < length s"
proof -
  assume a: "codeBlockAt s = Some (m, rest)"
  then have f: "take 3 s = fence"
    by (simp add: codeBlockAt_def split: if_splits)
  with a obtain body where "lazyUntilFence (drop 3 s) = Some (body, rest)"
    by (auto simp add: codeBlockAt_def split: option.splits)
  from lazyUntilFence_length [OF this] show ?thesis by simp
qed

text \<open>
  \<open>stripCodeBlocks\<close>: \<open>content.replace\<close> with the global expression replaces every match,
  found from left to right, by as many line feeds as the match holds.
\<close>

function stripCodeBlocks :: "string \<Rightarrow> string" where
  "stripCodeBlocks [] = []"
| "stripCodeBlocks (c # cs) =
     (case codeBlockAt (c # cs) of
        Some (m, rest) \<Rightarrow> replicate (countNewlines m) (CHR 0x0A) @ stripCodeBlocks rest
      | None \<Rightarrow> c # stripCodeBlocks cs)"
  by pat_completeness auto
termination
  by (relation "measure length") (auto dest: codeBlockAt_shorter)

definition lineNumberAt :: "string \<Rightarrow> nat \<Rightarrow> nat" where
  "lineNumberAt content index = length (splitNewline (slice 0 index content))"

subsection \<open>Positions of the stripped text\<close>

text \<open>The position of the line feed number \<open>i\<close>, counted from 0, of a text.\<close>

fun nthNewline :: "string \<Rightarrow> nat \<Rightarrow> nat" where
  "nthNewline [] i = 0"
| "nthNewline (c # cs) i =
     (if c = CHR 0x0A then (case i of 0 \<Rightarrow> 0 | Suc j \<Rightarrow> Suc (nthNewline cs j))
      else Suc (nthNewline cs i))"

text \<open>
  The position, in the document, of the character that stands at position \<open>i\<close> of the
  stripped text: a character outside the matches of \<open>CODE_BLOCK_REGEX\<close> is kept, and the
  line feeds that replace a match are the line feeds of the match, in their order.
\<close>

function originalIndex :: "string \<Rightarrow> nat \<Rightarrow> nat" where
  "originalIndex [] i = i"
| "originalIndex (c # cs) i =
     (case codeBlockAt (c # cs) of
        Some (m, rest) \<Rightarrow>
          if i < countNewlines m then nthNewline m i
          else length m + originalIndex rest (i - countNewlines m)
      | None \<Rightarrow> (case i of 0 \<Rightarrow> 0 | Suc j \<Rightarrow> Suc (originalIndex cs j)))"
  by pat_completeness auto
termination
  by (relation "measure (\<lambda>(s, i). length s)") (auto dest: codeBlockAt_shorter)

subsection \<open>The three link expressions\<close>

text \<open>
  An expression tried at one position: the character before the position (for the
  lookbehind and the word boundary), the text from the position on; the result is the
  length of the match and the text of the capture group the script reads.
\<close>

type_synonym matcher = "char option \<Rightarrow> string \<Rightarrow> (nat \<times> string) option"

text \<open>
  \<open>MARKDOWN_LINK_REGEX\<close>, \<open>(?<!!)\[[^\]]*]\(([^)\n]+)\)\<close>: not after an exclamation mark,
  an opening bracket, the text up to the first closing bracket, an opening parenthesis,
  and a non-empty target up to the first closing parenthesis, with no line feed.
\<close>

definition markdownLinkAt :: matcher where
  "markdownLinkAt prev s =
     (if prev = Some (CHR ''!'') then None
      else (case s of
              [] \<Rightarrow> None
            | c # r \<Rightarrow>
                if c \<noteq> CHR ''['' then None
                else (let text = takeWhile (\<lambda>x. x \<noteq> CHR '']'') r;
                          r1 = dropWhile (\<lambda>x. x \<noteq> CHR '']'') r
                      in if take 2 r1 \<noteq> ''](''  then None
                         else (let target = takeWhile (\<lambda>x. x \<noteq> CHR '')'' \<and> x \<noteq> CHR 0x0A) (drop 2 r1);
                                   r2 = dropWhile (\<lambda>x. x \<noteq> CHR '')'' \<and> x \<noteq> CHR 0x0A) (drop 2 r1)
                               in if target \<noteq> [] \<and> take 1 r2 = '')''
                                  then Some (length text + length target + 4, target)
                                  else None))))"

text \<open>
  \<open>AUTOLINK_REGEX\<close>, \<open><((?:https?:\/\/)[^>\s]+)>\<close>: the capture is the scheme with the
  non-empty run of characters, none of them white space, that the closing angle ends.
\<close>

definition autolinkAt :: matcher where
  "autolinkAt prev s =
     (case s of
        [] \<Rightarrow> None
      | c # r \<Rightarrow>
          if c \<noteq> CHR ''<'' then None
          else (let scheme = (if take 8 r = ''https://'' then ''https://''
                              else if take 7 r = ''http://'' then ''http://'' else [])
                in if scheme = [] then None
                   else (let body = takeWhile (\<lambda>x. x \<noteq> CHR ''>'' \<and> \<not> isWhiteSpace x) (drop (length scheme) r);
                             r1 = dropWhile (\<lambda>x. x \<noteq> CHR ''>'' \<and> \<not> isWhiteSpace x) (drop (length scheme) r)
                         in if body \<noteq> [] \<and> take 1 r1 = ''>''
                            then Some (length scheme + length body + 2, scheme @ body)
                            else None)))"

text \<open>
  The tail \<open>\bhref=(["'])(.*?)\1\<close> of \<open>HTML_ANCHOR_REGEX\<close>, tried after the character
  \<open>p\<close>: a word boundary, the attribute name in any case, a quote, and the shortest value,
  free of line terminators, that the same quote closes.
\<close>

definition hrefAt :: "char \<Rightarrow> string \<Rightarrow> (nat \<times> string) option" where
  "hrefAt p t =
     (case t of
        [] \<Rightarrow> None
      | h # _ \<Rightarrow>
          if isWordChar p = isWordChar h then None
          else if map asciiLower (take 5 t) \<noteq> ''href='' then None
          else (case drop 5 t of
                  [] \<Rightarrow> None
                | q # r \<Rightarrow>
                    if q \<noteq> CHR 0x22 \<and> q \<noteq> CHR 0x27 then None
                    else (let v = takeWhile (\<lambda>x. x \<noteq> q \<and> \<not> isLineTerminator x) r;
                              r1 = dropWhile (\<lambda>x. x \<noteq> q \<and> \<not> isLineTerminator x) r
                          in if take 1 r1 = [q] then Some (length v + 7, v) else None)))"

text \<open>
  The greedy \<open>[^>]*\<close> before that tail gives back one character at a time: the tail is
  tried after \<open>k\<close> characters of \<open>r\<close>, then after \<open>k - 1\<close>, down to none.
\<close>

fun lastHref :: "char \<Rightarrow> string \<Rightarrow> nat \<Rightarrow> (nat \<times> string) option" where
  "lastHref a r 0 = hrefAt a r"
| "lastHref a r (Suc k) =
     (case hrefAt (r ! k) (drop (Suc k) r) of
        Some (len, v) \<Rightarrow> Some (Suc k + len, v)
      | None \<Rightarrow> lastHref a r k)"

text \<open>
  \<open>HTML_ANCHOR_REGEX\<close>, \<open><a\b[^>]*\bhref=(["'])(.*?)\1\<close> with the flags \<open>g\<close> and \<open>i\<close>: the
  result holds the second capture group, the value of the attribute.
\<close>

definition htmlAnchorAt :: matcher where
  "htmlAnchorAt prev s =
     (case s of
        c0 # c1 # r \<Rightarrow>
          if c0 \<noteq> CHR ''<'' \<or> asciiLower c1 \<noteq> CHR ''a'' then None
          else if r \<noteq> [] \<and> isWordChar (hd r) then None
          else (case lastHref c1 r (length (takeWhile (\<lambda>x. x \<noteq> CHR ''>'') r)) of
                  Some (len, v) \<Rightarrow> Some (len + 2, v)
                | None \<Rightarrow> None)
      | _ \<Rightarrow> None)"

text \<open>
  The loop \<open>while ((match = re.exec(content)) !== null)\<close> of a global expression: the
  positions from \<open>lastIndex\<close> on are tried in turn, and a match moves \<open>lastIndex\<close> to its
  end. \<open>i\<close> is the position of the text that is left, \<open>prev\<close> the character before it.
  The result lists \<open>match.index\<close> with the capture, in the order of the matches. (None of
  the three expressions matches the empty string, on which the loop of the script would
  not end.)
\<close>

fun execAll :: "matcher \<Rightarrow> char option \<Rightarrow> nat \<Rightarrow> nat \<Rightarrow> string \<Rightarrow> (nat \<times> string) list" where
  "execAll re prev i lastIndex [] = []"
| "execAll re prev i lastIndex (c # cs) =
     (if i < lastIndex then execAll re (Some c) (Suc i) lastIndex cs
      else (case re prev (c # cs) of
              Some (len, cap) \<Rightarrow> (i, cap) # execAll re (Some c) (Suc i) (i + len) cs
            | None \<Rightarrow> execAll re (Some c) (Suc i) lastIndex cs))"

subsection \<open>From a link target to an external URL\<close>

definition extractMarkdownUrl :: "string \<Rightarrow> string" where
  "extractMarkdownUrl raw =
     (let trimmed = trim raw
      in if trimmed = [] then []
         else if take 1 trimmed = ''<'' \<and> CHR ''>'' \<in> set trimmed
           then trim (slice 1 (indexOf (CHR ''>'') trimmed) trimmed)
         else takeWhile (\<lambda>c. \<not> isWhiteSpace c) trimmed)"

definition stripQueryAndHash :: "string \<Rightarrow> string" where
  "stripQueryAndHash url = takeWhile (\<lambda>c. c \<noteq> CHR ''?'' \<and> c \<noteq> CHR ''#'') url"

text \<open>
  What the script reads of a parsed \<open>URL\<close> object; \<open>href\<close> is what \<open>toString()\<close> returns.
  The parser \<open>new URL\<close> is a parameter \<open>parse\<close> of the functions below: \<open>None\<close> when the
  constructor throws.
\<close>

record URL =
  protocol :: string
  hostname :: string
  pathname :: string
  href :: string

type_synonym url_parser = "string \<Rightarrow> URL option"

text \<open>
  \<open>path.extname\<close> (POSIX): the extension of the last portion of the path, from its last
  dot on; trailing separators are ignored, and there is no extension when the last
  portion has no dot, starts with its only dot, or is \<open>..\<close>.
\<close>

definition extname :: "string \<Rightarrow> string" where
  "extname p =
     (let base = rev (takeWhile (\<lambda>c. c \<noteq> CHR ''/'') (dropWhile (\<lambda>c. c = CHR ''/'') (rev p)));
          ext = rev (takeWhile (\<lambda>c. c \<noteq> CHR ''.'') (rev base))
      in if CHR ''.'' \<notin> set base then []
         else if length base = Suc (length ext) then []
         else if base = ''..'' then []
         else CHR ''.'' # ext)"

definition IMAGE_EXTENSIONS :: "string set" where
  "IMAGE_EXTENSIONS =
     {''.png'', ''.jpg'', ''.jpeg'', ''.gif'', ''.webp'', ''.svg'', ''.avif'', ''.bmp'', ''.ico''}"

definition isImageUrl :: "url_parser \<Rightarrow> string \<Rightarrow> bool" where
  "isImageUrl parse url =
     (let noQuery = stripQueryAndHash url
      in (case parse noQuery of
            Some parsed \<Rightarrow> toLowerCase (extname (pathname parsed)) \<in> IMAGE_EXTENSIONS
          | None \<Rightarrow> toLowerCase (extname noQuery) \<in> IMAGE_EXTENSIONS))"

definition toExternalHttpUrl :: "url_parser \<Rightarrow> string \<Rightarrow> string option" where
  "toExternalHttpUrl parse raw =
     (let trimmed = trim raw
      in if trimmed = [] then None
         else (case parse trimmed of
                 None \<Rightarrow> None
               | Some parsed \<Rightarrow>
                   if protocol parsed \<noteq> ''http:'' \<and> protocol parsed \<noteq> ''https:'' then None
                   else if hostname parsed = ''localhost'' then None
                   else Some (href parsed)))"

subsection \<open>The links of one file\<close>

text \<open>An element of the array that \<open>collectFileLinks\<close> returns: the URL and the line.\<close>

type_synonym link = "string \<times> nat"

text \<open>
  The body of the second and third loop of \<open>collectFileLinks\<close>: a target that is not an
  external URL (\<open>null\<close> or the empty string) or is an image is skipped.
\<close>

definition linkOf :: "url_parser \<Rightarrow> string \<Rightarrow> nat \<Rightarrow> string \<Rightarrow> link list" where
  "linkOf parse content index target =
     (case toExternalHttpUrl parse target of
        None \<Rightarrow> []
      | Some external \<Rightarrow>
          if external = [] \<or> isImageUrl parse external then []
          else [(external, lineNumberAt content index)])"

text \<open>The body of the first loop: the target is cut out of the capture first.\<close>

definition markdownLinkOf :: "url_parser \<Rightarrow> string \<Rightarrow> nat \<Rightarrow> string \<Rightarrow> link list" where
  "markdownLinkOf parse content index capture =
     (let extracted = extractMarkdownUrl capture
      in if extracted = [] then [] else linkOf parse content index extracted)"

text \<open>The three loops of \<open>collectFileLinks\<close>, each over the matches of its expression.\<close>

definition markdownLinks :: "url_parser \<Rightarrow> string \<Rightarrow> link list" where
  "markdownLinks parse content =
     concat (map (\<lambda>(index, capture). markdownLinkOf parse content index capture)
               (execAll markdownLinkAt None 0 0 content))"

definition autolinks :: "url_parser \<Rightarrow> string \<Rightarrow> link list" where
  "autolinks parse content =
     concat (map (\<lambda>(index, capture). linkOf parse content index capture)
               (execAll autolinkAt None 0 0 content))"

definition anchorLinks :: "url_parser \<Rightarrow> string \<Rightarrow> link list" where
  "anchorLinks parse content =
     concat (map (\<lambda>(index, capture). linkOf parse content index capture)
               (execAll htmlAnchorAt None 0 0 content))"

text \<open>
  \<open>collectFileLinks\<close>, on the text of the file: the markdown links, then the autolinks,
  then the anchors, each loop in the order of its matches.
\<close>

definition collectFileLinks :: "url_parser \<Rightarrow> string \<Rightarrow> link list" where
  "collectFileLinks parse rawContent =
     (let content = stripCodeBlocks rawContent
      in markdownLinks parse content @ autolinks parse content @ anchorLinks parse content)"

subsection \<open>main: the occurrences of every URL\<close>

text \<open>
  \<open>occurrencesByUrl\<close> is a \<open>Map\<close>, which keeps its keys in the order of their first
  insertion: a list of keys with their values. \<open>mapSet\<close> is \<open>Map.prototype.set\<close>, and
  \<open>map_of\<close> is \<open>Map.prototype.get\<close>.
\<close>

record LinkOccurrence =
  "file" :: string
  line :: nat

type_synonym occurrences_map = "(string \<times> LinkOccurrence list) list"

fun mapSet :: "('k \<times> 'v) list \<Rightarrow> 'k \<Rightarrow> 'v \<Rightarrow> ('k \<times> 'v) list" where
  "mapSet [] k v = [(k, v)]"
| "mapSet ((k', v') # m) k v = (if k' = k then (k, v) # m else (k', v') # mapSet m k v)"

text \<open>The body of the inner loop of \<open>main\<close> (lines 256 to 258).\<close>

definition addLink :: "string \<Rightarrow> occurrences_map \<Rightarrow> link \<Rightarrow> occurrences_map" where
  "addLink relativeFile m l =
     (let found = (case map_of m (fst l) of Some os \<Rightarrow> os | None \<Rightarrow> [])
      in mapSet m (fst l) (found @ [\<lparr>file = relativeFile, line = snd l\<rparr>]))"

text \<open>
  The loop over the files (lines 250 to 260). A file is given by its relative path and
  its text, and the files come in the order in which \<open>findMarkdownFiles\<close> lists them.
\<close>

definition scanFiles :: "url_parser \<Rightarrow> (string \<times> string) list \<Rightarrow> occurrences_map" where
  "scanFiles parse files =
     foldl (\<lambda>m (relativeFile, rawContent).
              foldl (addLink relativeFile) m (collectFileLinks parse rawContent))
       [] files"

definition uniqueUrls :: "occurrences_map \<Rightarrow> string list" where
  "uniqueUrls m = map fst m"

subsection \<open>runWithConcurrency\<close>

text \<open>
  One asynchronous worker of the pool: created and not yet run, suspended at
  \<open>await worker(item)\<close>, or returned.
\<close>

datatype 'a worker = Created | Awaiting 'a | Finished

text \<open>
  The pool: the shared \<open>index\<close>, the workers, the items on which \<open>worker\<close> was called (in
  the order of the calls) and the items whose call has settled (in the order in which
  they settled).
\<close>

record 'a pool =
  index :: nat
  workers :: "'a worker list"
  invoked :: "'a list"
  settled :: "'a list"

text \<open>
  Worker \<open>w\<close> runs from the head of its loop to its next suspension: it takes the item at
  \<open>index\<close>, advances \<open>index\<close> and calls \<open>worker\<close>, or it leaves the loop and returns.
\<close>

definition loopHead :: "'a list \<Rightarrow> 'a pool \<Rightarrow> nat \<Rightarrow> 'a pool" where
  "loopHead items st w =
     (if index st < length items
      then st\<lparr>index := index st + 1,
              workers := (workers st)[w := Awaiting (items ! index st)],
              invoked := invoked st @ [items ! index st]\<rparr>
      else st\<lparr>workers := (workers st)[w := Finished]\<rparr>)"

text \<open>
  The call that worker \<open>w\<close> awaits settles, and the worker runs on to its next suspension.
  Nothing happens when worker \<open>w\<close> awaits nothing.
\<close>

definition resume :: "'a list \<Rightarrow> 'a pool \<Rightarrow> nat \<Rightarrow> 'a pool" where
  "resume items st w =
     (if w < length (workers st)
      then (case workers st ! w of
              Awaiting item \<Rightarrow> loopHead items (st\<lparr>settled := settled st @ [item]\<rparr>) w
            | _ \<Rightarrow> st)
      else st)"

text \<open>
  \<open>Array.from({ length: Math.min(limit, items.length) }, async () => ...)\<close>: the workers
  are started one after the other, and each runs to its first suspension at once.
\<close>

definition spawn :: "'a list \<Rightarrow> nat \<Rightarrow> 'a pool" where
  "spawn items limit =
     foldl (loopHead items)
       \<lparr>index = 0, workers = replicate (min limit (length items)) Created, invoked = [], settled = []\<rparr>
       [0 ..< min limit (length items)]"

text \<open>
  The pool after the awaited calls have settled in the order of \<open>schedule\<close>, a list of
  worker numbers: the order is not the script's to choose. A settled call is a fulfilled
  one: the callback that \<open>main\<close> passes never rejects, since \<open>checkUrl\<close> catches every
  exception.
\<close>

definition runWithConcurrency :: "'a list \<Rightarrow> nat \<Rightarrow> nat list \<Rightarrow> 'a pool" where
  "runWithConcurrency items limit schedule = foldl (resume items) (spawn items limit) schedule"

text \<open>\<open>Promise.all(workers)\<close> resolves when every worker has returned.\<close>

definition resolved :: "'a pool \<Rightarrow> bool" where
  "resolved st = list_all (\<lambda>w. w = Finished) (workers st)"

subsection \<open>main: the failures and their report\<close>

record FailedResult =
  url :: string
  reason :: string
  occurrences :: "LinkOccurrence list"

text \<open>
  The callback that \<open>main\<close> passes to the pool pushes a \<open>FailedResult\<close> when the check of
  its URL fails; the pushes happen in the order in which the checks settle.
\<close>

definition failedOf :: "network \<Rightarrow> occurrences_map \<Rightarrow> string list \<Rightarrow> FailedResult list" where
  "failedOf net m settledUrls =
     concat (map (\<lambda>u. let result = checkUrl net u
                       in if fst result then []
                          else [\<lparr>url = u,
                                 reason = (case snd result of Some r \<Rightarrow> r | None \<Rightarrow> ''invalid status code''),
                                 occurrences = (case map_of m u of Some os \<Rightarrow> os | None \<Rightarrow> [])\<rparr>])
               settledUrls)"

text \<open>
  \<open>failed.sort((a, b) => a.url.localeCompare(b.url))\<close>. The comparison of the platform
  is a parameter, returning a negative number, zero or a positive number;
  \<open>Array.prototype.sort\<close> is stable, and is modelled by insertion from the right.
\<close>

fun insertFailed :: "(string \<Rightarrow> string \<Rightarrow> int) \<Rightarrow> FailedResult \<Rightarrow> FailedResult list \<Rightarrow> FailedResult list" where
  "insertFailed localeCompare x [] = [x]"
| "insertFailed localeCompare x (y # ys) =
     (if localeCompare (url x) (url y) \<le> 0 then x # y # ys
      else y # insertFailed localeCompare x ys)"

definition sortFailed :: "(string \<Rightarrow> string \<Rightarrow> int) \<Rightarrow> FailedResult list \<Rightarrow> FailedResult list" where
  "sortFailed localeCompare xs = foldr (insertFailed localeCompare) xs []"

text \<open>
  \<open>main\<close> from the scan to the sorted list that it prints: \<open>None\<close> as long as the pool has
  not resolved under the schedule.
\<close>

definition main :: "url_parser \<Rightarrow> network \<Rightarrow> (string \<Rightarrow> string \<Rightarrow> int) \<Rightarrow> (string \<times> string) list \<Rightarrow> nat list
    \<Rightarrow> FailedResult list option" where
  "main parse net localeCompare files schedule =
     (let occurrencesByUrl = scanFiles parse files;
          st = runWithConcurrency (uniqueUrls occurrencesByUrl) MAX_CONCURRENCY schedule
      in if resolved st
         then Some (sortFailed localeCompare (failedOf net occurrencesByUrl (settled st)))
         else None)"

subsection \<open>Examples\<close>

text \<open>
  The results of the WHATWG parser on the strings of the examples, as a table; the
  theorems that hold for every document are proved for every parser, and use the table
  only in their examples.
\<close>

definition http_url :: "string \<Rightarrow> string \<Rightarrow> string \<Rightarrow> string \<Rightarrow> URL" where
  "http_url scheme host path query =
     \<lparr>protocol = scheme, hostname = host, pathname = path, href = scheme @ ''//'' @ host @ path @ query\<rparr>"

definition sampleURL :: url_parser where
  "sampleURL s =
     (if s = ''https://x.com'' \<or> s = ''https://x.com/'' then Some (http_url ''https:'' ''x.com'' ''/'' [])
      else if s = ''https://x.com/a.png'' then Some (http_url ''https:'' ''x.com'' ''/a.png'' [])
      else if s = ''https://x.com/.png'' then Some (http_url ''https:'' ''x.com'' ''/.png'' [])
      else if s = ''https://x.com/a.png?x=1'' then Some (http_url ''https:'' ''x.com'' ''/a.png'' ''?x=1'')
      else if s = ''https://ci.example.com/badge'' then Some (http_url ''https:'' ''ci.example.com'' ''/badge'' [])
      else if s = ''https://gone.example/'' then Some (http_url ''https:'' ''gone.example'' ''/'' [])
      else if s = ''https://down.example/'' then Some (http_url ''https:'' ''down.example'' ''/'' [])
      else if s = ''http://localhost/x'' then Some (http_url ''http:'' ''localhost'' ''/x'' [])
      else if s = ''mailto:team@x.com''
        then Some \<lparr>protocol = ''mailto:'', hostname = [], pathname = ''team@x.com'', href = ''mailto:team@x.com''\<rparr>
      else None)"

text \<open>The comparison of two strings by their code units.\<close>

fun codeUnitCompare :: "string \<Rightarrow> string \<Rightarrow> int" where
  "codeUnitCompare [] [] = 0"
| "codeUnitCompare [] (y # ys) = - 1"
| "codeUnitCompare (x # xs) [] = 1"
| "codeUnitCompare (x # xs) (y # ys) =
     (if (of_char x :: nat) < of_char y then - 1
      else if (of_char y :: nat) < of_char x then 1
      else codeUnitCompare xs ys)"

subsection \<open>The collation of the platform\<close>

text \<open>
  \<open>String.prototype.localeCompare\<close>, called with one argument, compares by the collation
  of the locale of the runtime. The definitions below give that comparison for the root
  collation of the CLDR, which the English locales use as it is, on the printable ASCII
  characters, of which the serialization of a URL consists. At the first level the
  characters stand in the order of \<open>collationOrder\<close>: the space, the punctuation, the
  symbols, the dollar sign, the digits and the letters, a letter in upper case standing
  with the same letter in lower case.
\<close>

definition collationOrder :: string where
  "collationOrder =
     '' _-,;:!?.'' @ [CHR 0x27, CHR 0x22] @ ''()[]{}@*/'' @ [CHR 0x5C] @ ''&#%'' @ [CHR 0x60] @ ''^+<=>|~$''
       @ ''0123456789'' @ ''abcdefghijklmnopqrstuvwxyz''"

text \<open>The weight of a character at the first level: its place in the table.\<close>

definition primaryWeight :: "char \<Rightarrow> nat" where
  "primaryWeight c = indexOf (asciiLower c) collationOrder"

text \<open>The weight of a character at the level of the case: lower case goes first.\<close>

definition caseWeight :: "char \<Rightarrow> nat" where
  "caseWeight c = (let n = (of_char c :: nat) in if 65 \<le> n \<and> n \<le> 90 then 1 else 0)"

text \<open>
  The comparison of two lists of weights from the left: the first difference decides,
  and a proper prefix goes first.
\<close>

fun lexCompare :: "nat list \<Rightarrow> nat list \<Rightarrow> int" where
  "lexCompare [] [] = 0"
| "lexCompare [] (y # ys) = - 1"
| "lexCompare (x # xs) [] = 1"
| "lexCompare (x # xs) (y # ys) =
     (if x < y then - 1 else if y < x then 1 else lexCompare xs ys)"

text \<open>
  The comparison of two strings: by the weights of the first level, and by the case of
  the letters when the first level does not tell the strings apart. The result is
  negative, zero or positive, as \<open>Array.prototype.sort\<close> reads it.
\<close>

definition localeCompare_root :: "string \<Rightarrow> string \<Rightarrow> int" where
  "localeCompare_root a b =
     (let level1 = lexCompare (map primaryWeight a) (map primaryWeight b)
      in if level1 \<noteq> 0 then level1
         else lexCompare (map caseWeight a) (map caseWeight b))"

text \<open>A string of the characters that the table places: the printable ASCII characters.\<close>

definition collated :: "string \<Rightarrow> bool" where
  "collated s = list_all (\<lambda>c. asciiLower c \<in> set collationOrder) s"


text \<open>
  The results of the parser on two URLs that differ in the case of a letter, and a
  network that answers every request with the status 404.
\<close>

definition letterURL :: url_parser where
  "letterURL s =
     (if s = ''https://x.com/a'' then Some (http_url ''https:'' ''x.com'' ''/a'' [])
      else if s = ''https://x.com/B'' then Some (http_url ''https:'' ''x.com'' ''/B'' [])
      else None)"

definition gone_net :: network where
  "gone_net m u = Resolves 20 404"

subsection \<open>The encounters of a corpus\<close>


text \<open>
  The links of the whole corpus in the order in which \<open>main\<close> meets them: file after
  file, and in a file the order of the list that \<open>collectFileLinks\<close> returns.
\<close>

definition encounters :: "url_parser \<Rightarrow> (string \<times> string) list \<Rightarrow> (string \<times> LinkOccurrence) list" where
  "encounters parse files =
     concat (map (\<lambda>(relativeFile, rawContent).
                    map (\<lambda>(u, n). (u, \<lparr>file = relativeFile, line = n\<rparr>)) (collectFileLinks parse rawContent))
               files)"

text \<open>The occurrences of one URL among them, in that order.\<close>

definition occurrencesOf :: "string \<Rightarrow> (string \<times> LinkOccurrence) list \<Rightarrow> LinkOccurrence list" where
  "occurrencesOf u es = map snd (filter (\<lambda>e. fst e = u) es)"

text \<open>One step of the inner loop, on an encounter.\<close>

definition addEncounter :: "occurrences_map \<Rightarrow> string \<times> LinkOccurrence \<Rightarrow> occurrences_map" where
  "addEncounter m e =
     mapSet m (fst e) ((case map_of m (fst e) of Some os \<Rightarrow> os | None \<Rightarrow> []) @ [snd e])"

subsection \<open>Text without fences\<close>

text \<open>
  A text in which no fence starts, whatever follows it: no three backquotes in a row,
  and no backquote at the end.
\<close>

fun fenceFree :: "string \<Rightarrow> bool" where
  "fenceFree [] = True"
| "fenceFree (c # cs) = (take 3 (c # cs @ ''``'') \<noteq> fence \<and> fenceFree cs)"

text \<open>Each of the three expressions matches only at a bracket or at an angle.\<close>

definition startsLink :: "char \<Rightarrow> bool" where
  "startsLink c = (c = CHR ''['' \<or> c = CHR ''<'')"

subsection \<open>External URLs\<close>

text \<open>
  A URL that the script takes for external: the serialization of what some target
  parses to, with the scheme http or https and a host other than localhost.
\<close>

definition externalHttp :: "url_parser \<Rightarrow> string \<Rightarrow> bool" where
  "externalHttp parse u =
     (\<exists>target parsed. parse (trim target) = Some parsed
        \<and> (protocol parsed = ''http:'' \<or> protocol parsed = ''https:'')
        \<and> hostname parsed \<noteq> ''localhost'' \<and> u = href parsed)"

subsection \<open>The invariant of the pool\<close>

text \<open>The item that a worker awaits, as a multiset.\<close>

definition held :: "'a worker \<Rightarrow> 'a multiset" where
  "held w = (case w of Awaiting x \<Rightarrow> {#x#} | _ \<Rightarrow> {#})"

text \<open>
  What holds of the pool at every moment: the calls made are the items before \<open>index\<close>,
  each call has settled or is awaited by one worker, and a worker returns only when no
  item is left.
\<close>

definition pool_inv :: "'a list \<Rightarrow> 'a pool \<Rightarrow> bool" where
  "pool_inv items st =
     (index st \<le> length items \<and> invoked st = take (index st) items
      \<and> mset (invoked st) = mset (settled st) + sum_list (map held (workers st))
      \<and> (Finished \<in> set (workers st) \<longrightarrow> index st = length items))"

text \<open>What is left to do: two steps for every item not yet taken, one for every pending call.\<close>

definition todo :: "'a list \<Rightarrow> 'a pool \<Rightarrow> nat" where
  "todo items st = 2 * (length items - index st) + size (sum_list (map held (workers st)))"

section \<open>Properties of the checker\<close>

text \<open>
  C9: the condition that sends the GET request, status at least 400 or status exactly
  429, holds for exactly the statuses that are at least 400.
\<close>

theorem escalates_is_at_least_400:
  "escalates = escalates_spec \<and> escalates status = (400 \<le> status)"
  by (auto simp add: escalates_def escalates_spec_def fun_eq_iff)

text \<open>
  C1: checkUrl classifies the final response, which is the HEAD response, or the GET
  response when the HEAD status sent the fallback GET. Status 404 fails with reason
  "HTTP 404"; 403 and 429 pass; any other status below 200 or at least 400 fails with
  reason "HTTP " followed by the status; every remaining status passes.
\<close>

theorem checkUrl_classifies_final_response:
  assumes head: "fetchWithTimeout net u HEAD = Inr h"
    and get: "escalates h \<Longrightarrow> fetchWithTimeout net u GET = Inr g"
    and final: "status = (if escalates h then g else h)"
  shows "(status = 404 \<longrightarrow> checkUrl net u = (False, Some ''HTTP 404''))
    \<and> (status = 403 \<or> status = 429 \<longrightarrow> checkUrl net u = (True, None))
    \<and> (status \<notin> {404, 403, 429} \<and> (status < 200 \<or> 400 \<le> status) \<longrightarrow>
          checkUrl net u = (False, Some (''HTTP '' @ decimal status)))
    \<and> (200 \<le> status \<and> status < 400 \<longrightarrow> checkUrl net u = (True, None))"
proof (cases "escalates h")
  case True
  with get have "fetchWithTimeout net u GET = Inr g" by simp
  with head final True show ?thesis
    by (simp add: checkUrl_def ACCEPTED_STATUSES_def)
next
  case False
  with head final show ?thesis
    by (auto simp add: checkUrl_def ACCEPTED_STATUSES_def escalates_def)
qed

theorem checkUrl_classifies_final_response_witness:
  "fetchWithTimeout demo_net ''https://head.example/'' HEAD = Inr 404
   \<and> fetchWithTimeout demo_net ''https://head.example/'' GET = Inr 200
   \<and> escalates 404
   \<and> checkUrl demo_net ''https://head.example/'' = (True, None)
   \<and> checkUrl demo_net ''https://gone.example/'' = (False, Some ''HTTP 404'')
   \<and> checkUrl demo_net ''https://blocked.example/'' = (True, None)
   \<and> checkUrl demo_net ''https://error.example/'' = (False, Some ''HTTP 503'')"
proof -
  note t = checkUrl_classifies_final_response
  have e: "escalates 404" "escalates 403" "escalates 500"
    by (simp_all add: escalates_def)
  have h: "fetchWithTimeout demo_net ''https://head.example/'' HEAD = Inr 404"
    and g: "fetchWithTimeout demo_net ''https://head.example/'' GET = Inr 200"
    by (simp_all add: fetchWithTimeout_def demo_net_def TIMEOUT_MS_def)
  from t [OF h g, of 200] e
  have 1: "checkUrl demo_net ''https://head.example/'' = (True, None)"
    by simp
  have "fetchWithTimeout demo_net ''https://gone.example/'' HEAD = Inr 404"
    and "fetchWithTimeout demo_net ''https://gone.example/'' GET = Inr 404"
    by (simp_all add: fetchWithTimeout_def demo_net_def TIMEOUT_MS_def)
  from t [OF this, of 404] e
  have 2: "checkUrl demo_net ''https://gone.example/'' = (False, Some ''HTTP 404'')"
    by simp
  have "fetchWithTimeout demo_net ''https://blocked.example/'' HEAD = Inr 403"
    and "fetchWithTimeout demo_net ''https://blocked.example/'' GET = Inr 403"
    by (simp_all add: fetchWithTimeout_def demo_net_def TIMEOUT_MS_def)
  from t [OF this, of 403] e
  have 3: "checkUrl demo_net ''https://blocked.example/'' = (True, None)"
    by simp
  have "fetchWithTimeout demo_net ''https://error.example/'' HEAD = Inr 500"
    and "fetchWithTimeout demo_net ''https://error.example/'' GET = Inr 503"
    by (simp_all add: fetchWithTimeout_def demo_net_def TIMEOUT_MS_def)
  from t [OF this, of 503] e
  have "checkUrl demo_net ''https://error.example/'' = (False, Some (''HTTP '' @ decimal 503))"
    by simp
  moreover have "decimal 503 = ''503''"
    by code_simp
  ultimately have 4: "checkUrl demo_net ''https://error.example/'' = (False, Some ''HTTP 503'')"
    by simp
  from h g e(1) 1 2 3 4 show ?thesis by (intro conjI)
qed

text \<open>
  C7: when the timer aborts the request in flight (the HEAD request, or the GET request
  sent after a HEAD response whose status escalates), checkUrl fails with the reason
  "timeout" and no other message.
\<close>

theorem checkUrl_timeout:
  assumes "timesOut (net HEAD u)
    \<or> (\<exists>t h. net HEAD u = Resolves t h \<and> t < TIMEOUT_MS \<and> escalates h \<and> timesOut (net GET u))"
  shows "checkUrl net u = (False, Some ''timeout'')"
  using assms
proof
  assume "timesOut (net HEAD u)"
  then have "fetchWithTimeout net u HEAD = Inl abortError"
    by (simp add: timesOut_def fetchWithTimeout_def split: fetch_behaviour.splits)
  then show ?thesis
    by (simp add: checkUrl_def abortError_def)
next
  assume "\<exists>t h. net HEAD u = Resolves t h \<and> t < TIMEOUT_MS \<and> escalates h \<and> timesOut (net GET u)"
  then obtain t h where h: "net HEAD u = Resolves t h" "t < TIMEOUT_MS" "escalates h"
    and g: "timesOut (net GET u)" by blast
  from h have "fetchWithTimeout net u HEAD = Inr h"
    by (simp add: fetchWithTimeout_def)
  moreover from g have "fetchWithTimeout net u GET = Inl abortError"
    by (simp add: timesOut_def fetchWithTimeout_def split: fetch_behaviour.splits)
  ultimately show ?thesis using h(3)
    by (simp add: checkUrl_def abortError_def)
qed

theorem checkUrl_timeout_witness:
  "demo_net HEAD ''https://slow.example/'' = Resolves 35 405 \<and> 35 < TIMEOUT_MS \<and> escalates 405
   \<and> timesOut (demo_net GET ''https://slow.example/'')
   \<and> checkUrl demo_net ''https://slow.example/'' = (False, Some ''timeout'')"
proof -
  have a: "demo_net HEAD ''https://slow.example/'' = Resolves 35 405 \<and> 35 < TIMEOUT_MS \<and> escalates 405
      \<and> timesOut (demo_net GET ''https://slow.example/'')"
    by (simp add: demo_net_def TIMEOUT_MS_def escalates_def timesOut_def)
  then have "timesOut (demo_net HEAD ''https://slow.example/'')
    \<or> (\<exists>t h. demo_net HEAD ''https://slow.example/'' = Resolves t h \<and> t < TIMEOUT_MS \<and> escalates h
          \<and> timesOut (demo_net GET ''https://slow.example/''))"
    by blast
  from checkUrl_timeout [of demo_net "''https://slow.example/''", OF this] a show ?thesis by simp
qed

section \<open>Properties of the worker pool\<close>


lemma held_update:
  "w < length ws \<Longrightarrow> sum_list (map held (ws[w := v])) + held (ws ! w) = sum_list (map held ws) + held v"
proof (induction ws arbitrary: w)
  case Nil
  then show ?case by simp
next
  case (Cons a ws)
  show ?case
  proof (cases w)
    case 0
    then show ?thesis by simp
  next
    case (Suc n)
    with Cons.prems have "n < length ws" by simp
    from Cons.IH [OF this] Suc show ?thesis by (simp add: ac_simps)
  qed
qed

lemma loopHead_inv:
  assumes inv: "pool_inv items st" and w: "w < length (workers st)" and idle: "held (workers st ! w) = {#}"
  shows "pool_inv items (loopHead items st w)"
proof (cases "index st < length items")
  case True
  from held_update [OF w, of "Awaiting (items ! index st)"] idle
  have h: "sum_list (map held ((workers st)[w := Awaiting (items ! index st)]))
      = sum_list (map held (workers st)) + {#items ! index st#}"
    by (simp add: held_def)
  from inv True have fin: "Finished \<notin> set (workers st)"
    by (auto simp add: pool_inv_def)
  have "Finished \<notin> set ((workers st)[w := Awaiting (items ! index st)])"
  proof
    assume "Finished \<in> set ((workers st)[w := Awaiting (items ! index st)])"
    then have "Finished \<in> insert (Awaiting (items ! index st)) (set (workers st))"
      using set_update_subset_insert by fastforce
    with fin show False by simp
  qed
  with inv True h show ?thesis
    by (auto simp add: pool_inv_def loopHead_def take_Suc_conv_app_nth)
next
  case False
  from held_update [OF w, of Finished] idle
  have h: "sum_list (map held ((workers st)[w := Finished])) = sum_list (map held (workers st))"
    by (simp add: held_def)
  from inv False have "index st = length items"
    by (simp add: pool_inv_def)
  with inv False h show ?thesis
    by (auto simp add: pool_inv_def loopHead_def)
qed

lemma resume_inv:
  assumes inv: "pool_inv items st"
  shows "pool_inv items (resume items st w)"
proof (cases "w < length (workers st)")
  case False
  then show ?thesis using inv by (simp add: resume_def)
next
  case True
  show ?thesis
  proof (cases "workers st ! w")
    case Created
    with True inv show ?thesis by (simp add: resume_def)
  next
    case Finished
    with True inv show ?thesis by (simp add: resume_def)
  next
    case (Awaiting item)
    let ?mid = "st\<lparr>settled := settled st @ [item], workers := (workers st)[w := Created]\<rparr>"
    from held_update [OF True, of Created] Awaiting
    have h: "sum_list (map held ((workers st)[w := Created])) + {#item#} = sum_list (map held (workers st))"
      by (simp add: held_def)
    have fin: "Finished \<in> set ((workers st)[w := Created]) \<Longrightarrow> Finished \<in> set (workers st)"
      using set_update_subset_insert [of "workers st" w Created] by auto
    from inv h fin have mid: "pool_inv items ?mid"
      by (auto simp add: pool_inv_def ac_simps)
    have "loopHead items ?mid w = loopHead items (st\<lparr>settled := settled st @ [item]\<rparr>) w"
      by (simp add: loopHead_def)
    moreover from True have "pool_inv items (loopHead items ?mid w)"
      by (intro loopHead_inv [OF mid]) (simp_all add: held_def)
    ultimately show ?thesis using True Awaiting
      by (simp add: resume_def)
  qed
qed

lemma loopHead_length: "length (workers (loopHead items st w)) = length (workers st)"
  by (simp add: loopHead_def)

lemma resume_length: "length (workers (resume items st w)) = length (workers st)"
  by (simp add: resume_def loopHead_length split: worker.splits)


lemma run_inv:
  "pool_inv items st \<Longrightarrow> pool_inv items (foldl (resume items) st schedule)"
  by (induction schedule arbitrary: st) (simp_all add: resume_inv)

lemma run_length:
  "length (workers (foldl (resume items) st schedule)) = length (workers st)"
  by (induction schedule arbitrary: st) (simp_all add: resume_length)

text \<open>The start of the pool, worker by worker.\<close>

lemma spawn_steps:
  assumes "j \<le> k" and "k \<le> length items"
  defines "st \<equiv> foldl (loopHead items) \<lparr>index = 0, workers = replicate k Created, invoked = [], settled = []\<rparr> [0 ..< j]"
  shows "pool_inv items st \<and> length (workers st) = k \<and> index st = j
    \<and> (\<forall>w. j \<le> w \<and> w < k \<longrightarrow> workers st ! w = Created)
    \<and> (\<forall>w < j. workers st ! w \<noteq> Created \<and> workers st ! w \<noteq> Finished)"
  using assms(1) unfolding st_def
proof (induction j)
  case 0
  have "sum_list (map held (replicate k (Created :: 'a worker))) = {#}"
    by (induction k) (simp_all add: held_def)
  then show ?case by (simp add: pool_inv_def)
next
  case (Suc j)
  let ?st = "foldl (loopHead items) \<lparr>index = 0, workers = replicate k Created, invoked = [], settled = []\<rparr> [0 ..< j]"
  from Suc have IH: "pool_inv items ?st" "length (workers ?st) = k" "index ?st = j"
    "\<forall>w. j \<le> w \<and> w < k \<longrightarrow> workers ?st ! w = Created"
    "\<forall>w < j. workers ?st ! w \<noteq> Created \<and> workers ?st ! w \<noteq> Finished"
    by simp_all
  from Suc.prems have jk: "j < k" by simp
  with IH have idle: "held (workers ?st ! j) = {#}" by (simp add: held_def)
  from jk IH(1,2) have inv: "pool_inv items (loopHead items ?st j)"
    by (intro loopHead_inv) (simp_all add: idle)
  from jk assms(2) IH have lt: "index ?st < length items" by simp
  then have step: "loopHead items ?st j = ?st\<lparr>index := index ?st + 1,
      workers := (workers ?st)[j := Awaiting (items ! index ?st)],
      invoked := invoked ?st @ [items ! index ?st]\<rparr>"
    by (simp add: loopHead_def)
  have "\<forall>w. Suc j \<le> w \<and> w < k \<longrightarrow> workers (loopHead items ?st j) ! w = Created"
    using IH(4) by (simp add: step)
  moreover have "\<forall>w < Suc j. workers (loopHead items ?st j) ! w \<noteq> Created \<and> workers (loopHead items ?st j) ! w \<noteq> Finished"
    using IH(2,5) jk by (auto simp add: step nth_list_update less_Suc_eq)
  moreover have "index (loopHead items ?st j) = Suc j" "length (workers (loopHead items ?st j)) = k"
    using IH by (simp_all add: step)
  ultimately show ?case using inv by simp
qed

lemma spawn_inv:
  "pool_inv items (spawn items limit) \<and> length (workers (spawn items limit)) = min limit (length items)
   \<and> Created \<notin> set (workers (spawn items limit))"
proof -
  let ?k = "min limit (length items)"
  from spawn_steps [of ?k ?k items]
  have a: "pool_inv items (spawn items limit)" "length (workers (spawn items limit)) = ?k"
    "\<forall>w < ?k. workers (spawn items limit) ! w \<noteq> Created"
    by (simp_all add: spawn_def)
  from a(2,3) have "Created \<notin> set (workers (spawn items limit))"
    by (metis in_set_conv_nth)
  with a show ?thesis by simp
qed

lemma loopHead_no_Created:
  "Created \<notin> set (workers st) \<Longrightarrow> Created \<notin> set (workers (loopHead items st w))"
proof -
  assume a: "Created \<notin> set (workers st)"
  have "set ((workers st)[w := v]) \<subseteq> insert v (set (workers st))" for v
    by (rule set_update_subset_insert)
  with a show ?thesis
    by (auto simp add: loopHead_def)
qed

lemma resume_no_Created:
  "Created \<notin> set (workers st) \<Longrightarrow> Created \<notin> set (workers (resume items st w))"
  using loopHead_no_Created [of "st\<lparr>settled := settled st @ [x]\<rparr>" items w for x]
  by (auto simp add: resume_def split: worker.splits)

lemma resume_todo:
  assumes w: "w < length (workers st)" and a: "workers st ! w = Awaiting x"
  shows "todo items (resume items st w) < todo items st"
proof (cases "index st < length items")
  case True
  from held_update [OF w, of "Awaiting (items ! index st)"] a
  have "sum_list (map held ((workers st)[w := Awaiting (items ! index st)])) + {#x#}
      = sum_list (map held (workers st)) + {#items ! index st#}"
    by (simp add: held_def)
  from arg_cong [OF this, of size]
  have "size (sum_list (map held ((workers st)[w := Awaiting (items ! index st)]))) = size (sum_list (map held (workers st)))"
    by simp
  with True w a show ?thesis
    by (simp add: resume_def loopHead_def todo_def)
next
  case False
  from held_update [OF w, of Finished] a
  have "sum_list (map held ((workers st)[w := Finished])) + {#x#} = sum_list (map held (workers st))"
    by (simp add: held_def)
  then have "size (sum_list (map held ((workers st)[w := Finished]))) + 1 = size (sum_list (map held (workers st)))"
    by (metis size_single size_union)
  with False w a show ?thesis
    by (simp add: resume_def loopHead_def todo_def)
qed

lemma can_resolve:
  "Created \<notin> set (workers st) \<Longrightarrow> \<exists>rest. resolved (foldl (resume items) st rest)"
proof (induction "todo items st" arbitrary: st rule: less_induct)
  case less
  show ?case
  proof (cases "resolved st")
    case True
    then have "resolved (foldl (resume items) st [])" by simp
    then show ?thesis by blast
  next
    case False
    then obtain w where w: "w < length (workers st)" and nf: "workers st ! w \<noteq> Finished"
      by (auto simp add: resolved_def list_all_length)
    from less.prems w have "workers st ! w \<noteq> Created"
      by (metis nth_mem)
    with nf obtain x where a: "workers st ! w = Awaiting x"
      by (cases "workers st ! w") simp_all
    from resume_todo [OF w a] resume_no_Created [OF less.prems]
    obtain rest where "resolved (foldl (resume items) (resume items st w) rest)"
      using less.hyps by blast
    then have "resolved (foldl (resume items) st (w # rest))" by simp
    then show ?thesis by blast
  qed
qed

lemma resolved_done:
  assumes inv: "pool_inv items st" and r: "resolved st" and k: "workers st \<noteq> [] \<or> items = []"
  shows "invoked st = items \<and> mset (settled st) = mset items"
proof -
  from r have all: "\<forall>w \<in> set (workers st). w = Finished"
    by (simp add: resolved_def list_all_iff)
  then have "map held (workers st) = map (\<lambda>w. {#}) (workers st)"
    by (auto simp add: held_def)
  then have h: "sum_list (map held (workers st)) = {#}"
    by (simp add: sum_list_triv del: map_eq_conv)
  have "index st = length items"
  proof (cases "workers st")
    case Nil
    with k inv show ?thesis by (simp add: pool_inv_def)
  next
    case (Cons a ws)
    with all have "Finished \<in> set (workers st)" by simp
    with inv show ?thesis by (simp add: pool_inv_def)
  qed
  with inv h show ?thesis by (auto simp add: pool_inv_def)
qed


lemma failedOf_urls:
  "map url (failedOf net m settledUrls) = filter (\<lambda>u. \<not> fst (checkUrl net u)) settledUrls"
  by (induction settledUrls) (simp_all add: failedOf_def Let_def)

text \<open>
  C6: with a limit of at least 1, whatever the order in which the checks settle, the
  worker is called on the items in their order, each position of the list once; the
  settled calls are among the calls made; once the pool has resolved, the worker has
  been called on every item and every call has settled, and the failed list holds the
  URLs whose check failed, as data; and the pool can always run on until it resolves.
\<close>

theorem runWithConcurrency_each_item_once:
  assumes "1 \<le> limit"
  shows "invoked (runWithConcurrency items limit schedule)
           = take (index (runWithConcurrency items limit schedule)) items
    \<and> mset (settled (runWithConcurrency items limit schedule))
           \<subseteq># mset (invoked (runWithConcurrency items limit schedule))
    \<and> (resolved (runWithConcurrency items limit schedule) \<longrightarrow>
          invoked (runWithConcurrency items limit schedule) = items
          \<and> mset (settled (runWithConcurrency items limit schedule)) = mset items
          \<and> map url (failedOf net m (settled (runWithConcurrency items limit schedule)))
              = filter (\<lambda>u. \<not> fst (checkUrl net u)) (settled (runWithConcurrency items limit schedule)))
    \<and> (\<exists>rest. resolved (runWithConcurrency items limit (schedule @ rest)))"
proof -
  let ?st = "runWithConcurrency items limit schedule"
  from spawn_inv [of items limit] have inv: "pool_inv items ?st"
    by (simp add: runWithConcurrency_def run_inv)
  then have a: "invoked ?st = take (index ?st) items"
    and "mset (invoked ?st) = mset (settled ?st) + sum_list (map held (workers ?st))"
    unfolding pool_inv_def by blast+
  then have b: "mset (settled ?st) \<subseteq># mset (invoked ?st)"
    by (metis mset_subset_eq_add_left)
  have len: "length (workers ?st) = min limit (length items)"
    using spawn_inv [of items limit] by (simp add: runWithConcurrency_def run_length)
  have c: "invoked ?st = items \<and> mset (settled ?st) = mset items" if "resolved ?st"
  proof (rule resolved_done [OF inv that])
    from assms len show "workers ?st \<noteq> [] \<or> items = []"
      by (cases items) auto
  qed
  have "Created \<notin> set (workers ?st)"
    unfolding runWithConcurrency_def
  proof (induction schedule rule: rev_induct)
    case Nil
    then show ?case using spawn_inv [of items limit] by simp
  next
    case (snoc w schedule)
    then show ?case by (simp add: resume_no_Created)
  qed
  from can_resolve [OF this, of items]
  have d: "\<exists>rest. resolved (runWithConcurrency items limit (schedule @ rest))"
    by (simp add: runWithConcurrency_def)
  from a b c d show ?thesis
    by (simp add: failedOf_urls)
qed

theorem runWithConcurrency_each_item_once_witness:
  "1 \<le> (2::nat)
   \<and> resolved (runWithConcurrency [''https://x.com/'', ''https://gone.example/'', ''https://head.example/''] 2 [1, 0, 1])
   \<and> invoked (runWithConcurrency [''https://x.com/'', ''https://gone.example/'', ''https://head.example/''] 2 [1, 0, 1])
        = [''https://x.com/'', ''https://gone.example/'', ''https://head.example/'']
   \<and> settled (runWithConcurrency [''https://x.com/'', ''https://gone.example/'', ''https://head.example/''] 2 [1, 0, 1])
        = [''https://gone.example/'', ''https://x.com/'', ''https://head.example/'']
   \<and> map url (failedOf demo_net []
          (settled (runWithConcurrency [''https://x.com/'', ''https://gone.example/'', ''https://head.example/''] 2 [1, 0, 1])))
        = [''https://gone.example/'']"
proof -
  let ?items = "[''https://x.com/'', ''https://gone.example/'', ''https://head.example/'']"
  have r: "resolved (runWithConcurrency ?items 2 [1, 0, 1])"
    by code_simp
  have s: "settled (runWithConcurrency ?items 2 [1, 0, 1])
      = [''https://gone.example/'', ''https://x.com/'', ''https://head.example/'']"
    by code_simp
  have f: "filter (\<lambda>u. \<not> fst (checkUrl demo_net u))
      [''https://gone.example/'', ''https://x.com/'', ''https://head.example/''] = [''https://gone.example/'']"
    by code_simp
  have l: "1 \<le> (2::nat)" by simp
  note t = runWithConcurrency_each_item_once [OF l, of ?items "[1, 0, 1]" demo_net "[]"]
  from t r have i: "invoked (runWithConcurrency ?items 2 [1, 0, 1]) = ?items"
    by blast
  from t r have "map url (failedOf demo_net [] (settled (runWithConcurrency ?items 2 [1, 0, 1])))
      = filter (\<lambda>u. \<not> fst (checkUrl demo_net u)) (settled (runWithConcurrency ?items 2 [1, 0, 1]))"
    by blast
  with f have u: "map url (failedOf demo_net [] (settled (runWithConcurrency ?items 2 [1, 0, 1])))
      = [''https://gone.example/'']"
    by (simp only: s)
  show ?thesis
    by (intro conjI) (rule l r i s u)+
qed

section \<open>Properties of the scan\<close>

lemma mapSet_keys:
  "map fst (mapSet m k v) = (if k \<in> fst ` set m then map fst m else map fst m @ [k])"
proof (induction m)
  case Nil
  then show ?case by simp
next
  case (Cons p m)
  obtain k' v' where p: "p = (k', v')" by (cases p)
  show ?case
  proof (cases "k' = k")
    case True
    with p show ?thesis by simp
  next
    case False
    with p Cons.IH show ?thesis by simp
  qed
qed

lemma mapSet_map_of: "map_of (mapSet m k v) = (map_of m)(k \<mapsto> v)"
  by (induction m) (auto simp add: fun_eq_iff)

lemma addEncounter_distinct:
  "distinct (map fst m) \<Longrightarrow> distinct (map fst (addEncounter m e))"
  by (simp add: addEncounter_def mapSet_keys)

lemma addEncounter_keys:
  "fst ` set (addEncounter m e) = insert (fst e) (fst ` set m)"
proof -
  have "set (map fst (addEncounter m e)) = insert (fst e) (set (map fst m))"
    unfolding addEncounter_def mapSet_keys by auto
  then show ?thesis by simp
qed

lemma addEncounter_map_of:
  "map_of (addEncounter m e) u =
     (if u = fst e then Some ((case map_of m u of Some os \<Rightarrow> os | None \<Rightarrow> []) @ [snd e]) else map_of m u)"
  by (simp add: addEncounter_def mapSet_map_of)

lemma foldl_addEncounter_distinct:
  "distinct (map fst m) \<Longrightarrow> distinct (map fst (foldl addEncounter m es))"
  by (induction es arbitrary: m) (simp_all add: addEncounter_distinct)

lemma foldl_addEncounter_keys:
  "fst ` set (foldl addEncounter m es) = fst ` set m \<union> fst ` set es"
  by (induction es arbitrary: m) (simp_all add: addEncounter_keys)

lemma foldl_addEncounter_map_of:
  "map_of (foldl addEncounter m es) u =
     (if occurrencesOf u es = [] then map_of m u
      else Some ((case map_of m u of Some os \<Rightarrow> os | None \<Rightarrow> []) @ occurrencesOf u es))"
proof (induction es arbitrary: m)
  case Nil
  then show ?case by (simp add: occurrencesOf_def)
next
  case (Cons e es)
  show ?case
  proof (cases "u = fst e")
    case True
    then have "occurrencesOf u (e # es) = snd e # occurrencesOf u es"
      by (simp add: occurrencesOf_def)
    with True Cons.IH [of "addEncounter m e"] show ?thesis
      by (simp add: addEncounter_map_of)
  next
    case False
    then have "occurrencesOf u (e # es) = occurrencesOf u es"
      by (simp add: occurrencesOf_def)
    with False Cons.IH [of "addEncounter m e"] show ?thesis
      by (simp add: addEncounter_map_of)
  qed
qed

lemma addLink_addEncounter:
  "foldl (addLink f) m ls = foldl addEncounter m (map (\<lambda>(u, n). (u, \<lparr>file = f, line = n\<rparr>)) ls)"
  by (induction ls arbitrary: m) (simp_all add: addLink_def addEncounter_def Let_def split_beta)

lemma scanFiles_from:
  "foldl (\<lambda>m (relativeFile, rawContent).
            foldl (addLink relativeFile) m (collectFileLinks parse rawContent)) m files
   = foldl addEncounter m (encounters parse files)"
  by (induction files arbitrary: m) (simp_all add: encounters_def addLink_addEncounter split_beta)

lemma scanFiles_encounters:
  "scanFiles parse files = foldl addEncounter [] (encounters parse files)"
  by (simp add: scanFiles_def scanFiles_from)

lemma scanFiles_distinct: "distinct (uniqueUrls (scanFiles parse files))"
  using foldl_addEncounter_distinct [of "[]" "encounters parse files"]
  by (simp add: scanFiles_encounters uniqueUrls_def)

lemma splitNewline_length: "length (splitNewline s) = Suc (countNewlines s)"
proof (induction s)
  case Nil
  then show ?case by (simp add: countNewlines_def)
next
  case (Cons c cs)
  then show ?case
    by (cases "splitNewline cs") (simp_all add: countNewlines_def)
qed

lemma lineNumberAt_count: "lineNumberAt content i = Suc (countNewlines (take i content))"
  by (simp add: lineNumberAt_def slice_def splitNewline_length)

lemma countNewlines_append: "countNewlines (a @ b) = countNewlines a + countNewlines b"
  by (simp add: countNewlines_def)

lemma lineNumberAt_mono: "i \<le> j \<Longrightarrow> lineNumberAt content i \<le> lineNumberAt content j"
proof -
  assume "i \<le> j"
  then have "take j content = take i content @ take (j - i) (drop i content)"
    by (metis le_add_diff_inverse take_add)
  then show ?thesis
    by (simp add: lineNumberAt_count countNewlines_append)
qed

lemma execAll_indices:
  "sorted (map fst (execAll re prev i lastIndex s)) \<and> (\<forall>m \<in> set (execAll re prev i lastIndex s). i \<le> fst m)"
proof (induction s arbitrary: prev i lastIndex)
  case Nil
  then show ?case by simp
next
  case (Cons c cs)
  have up: "\<forall>m \<in> set (execAll re p (Suc i) l cs). i \<le> fst m" for p l
    using Cons.IH [of p "Suc i" l] by auto
  show ?case
  proof (cases "i < lastIndex")
    case True
    with Cons.IH [of "Some c" "Suc i" lastIndex] up show ?thesis by simp
  next
    case False
    show ?thesis
    proof (cases "re prev (c # cs)")
      case None
      with False Cons.IH [of "Some c" "Suc i" lastIndex] up show ?thesis by simp
    next
      case (Some r)
      obtain len cap where r: "r = (len, cap)" by (cases r)
      with Some False Cons.IH [of "Some c" "Suc i" "i + len"] up [of "Some c" "i + len"]
      show ?thesis by simp
    qed
  qed
qed

text \<open>A loop that keeps at most one link per match lists its links by rising line.\<close>

lemma loop_lines_sorted:
  assumes "sorted (map fst ms)"
    and "\<And>i c. f (i, c) = [] \<or> (\<exists>u. f (i, c) = [(u, lineNumberAt content i)])"
  shows "sorted (map snd (concat (map f ms)))"
  using assms(1)
proof (induction ms)
  case Nil
  then show ?case by simp
next
  case (Cons m ms)
  obtain i c where m: "m = (i, c)" by (cases m)
  from Cons have rest: "sorted (map snd (concat (map f ms)))" by simp
  have later: "\<forall>l \<in> set (concat (map f ms)). lineNumberAt content i \<le> snd l"
  proof
    fix l assume "l \<in> set (concat (map f ms))"
    then obtain j d where jd: "(j, d) \<in> set ms" and l: "l \<in> set (f (j, d))" by auto
    from assms(2) [of j d] l have "snd l = lineNumberAt content j" by auto
    moreover from Cons.prems m jd have "i \<le> j" by auto
    ultimately show "lineNumberAt content i \<le> snd l" by (simp add: lineNumberAt_mono)
  qed
  from assms(2) [of i c] show ?case
  proof
    assume "f (i, c) = []"
    with m rest show ?thesis by simp
  next
    assume "\<exists>u. f (i, c) = [(u, lineNumberAt content i)]"
    then obtain u where "f (i, c) = [(u, lineNumberAt content i)]" by blast
    with m rest later show ?thesis by simp
  qed
qed

lemma linkOf_cases:
  "linkOf parse content i t = [] \<or> (\<exists>u. linkOf parse content i t = [(u, lineNumberAt content i)])"
  by (simp add: linkOf_def split: option.splits)

lemma markdownLinkOf_cases:
  "markdownLinkOf parse content i t = [] \<or> (\<exists>u. markdownLinkOf parse content i t = [(u, lineNumberAt content i)])"
  using linkOf_cases [of parse content i "extractMarkdownUrl t"]
  by (simp add: markdownLinkOf_def Let_def)

lemma kinds_sorted:
  "sorted (map snd (markdownLinks parse content)) \<and> sorted (map snd (autolinks parse content))
   \<and> sorted (map snd (anchorLinks parse content))"
proof -
  have s: "sorted (map fst (execAll re None 0 0 content))" for re
    using execAll_indices [of re None 0 0 content] by simp
  have "sorted (map snd (markdownLinks parse content))"
    unfolding markdownLinks_def
    by (rule loop_lines_sorted [OF s, where content = content]) (simp add: markdownLinkOf_cases)
  moreover have "sorted (map snd (autolinks parse content))"
    unfolding autolinks_def
    by (rule loop_lines_sorted [OF s, where content = content]) (simp add: linkOf_cases)
  moreover have "sorted (map snd (anchorLinks parse content))"
    unfolding anchorLinks_def
    by (rule loop_lines_sorted [OF s, where content = content]) (simp add: linkOf_cases)
  ultimately show ?thesis by simp
qed


text \<open>
  C3, as amended: the scan keeps one record for every URL it meets, and the record of a
  URL lists all its occurrences in the order in which \<open>main\<close> meets them (a URL met twice
  has a record of length 2). That order is the order of the files and, within a file,
  the order of the list of \<open>collectFileLinks\<close>: the markdown links of the file, then its
  autolinks, then its anchors, each kind by rising line.
\<close>

theorem scanFiles_one_record_per_url:
  "distinct (uniqueUrls (scanFiles parse files))
   \<and> set (uniqueUrls (scanFiles parse files)) = fst ` set (encounters parse files)
   \<and> map_of (scanFiles parse files) u =
        (if occurrencesOf u (encounters parse files) = [] then None
         else Some (occurrencesOf u (encounters parse files)))
   \<and> (length (filter (\<lambda>e. fst e = u) (encounters parse files)) = 2 \<longrightarrow>
        (\<exists>first second. map_of (scanFiles parse files) u = Some [first, second]))
   \<and> encounters parse (files @ [(relativeFile, rawContent)]) =
        encounters parse files
        @ map (\<lambda>(u, n). (u, \<lparr>file = relativeFile, line = n\<rparr>))
            (markdownLinks parse (stripCodeBlocks rawContent)
             @ autolinks parse (stripCodeBlocks rawContent)
             @ anchorLinks parse (stripCodeBlocks rawContent))
   \<and> sorted (map snd (markdownLinks parse content))
   \<and> sorted (map snd (autolinks parse content))
   \<and> sorted (map snd (anchorLinks parse content))"
proof -
  let ?es = "encounters parse files"
  have a: "distinct (uniqueUrls (scanFiles parse files))"
    by (rule scanFiles_distinct)
  have b: "set (uniqueUrls (scanFiles parse files)) = fst ` set ?es"
    by (simp add: uniqueUrls_def scanFiles_encounters foldl_addEncounter_keys)
  have c: "map_of (scanFiles parse files) u =
      (if occurrencesOf u ?es = [] then None else Some (occurrencesOf u ?es))"
    by (simp add: scanFiles_encounters foldl_addEncounter_map_of)
  have d: "\<exists>first second. map_of (scanFiles parse files) u = Some [first, second]"
    if "length (filter (\<lambda>e. fst e = u) ?es) = 2"
  proof -
    from that have "length (occurrencesOf u ?es) = 2"
      by (simp add: occurrencesOf_def)
    then obtain first second where "occurrencesOf u ?es = [first, second]"
      by (auto simp add: length_Suc_conv numeral_2_eq_2)
    with c show ?thesis by simp
  qed
  have e: "encounters parse (files @ [(relativeFile, rawContent)]) =
      ?es @ map (\<lambda>(u, n). (u, \<lparr>file = relativeFile, line = n\<rparr>))
            (markdownLinks parse (stripCodeBlocks rawContent)
             @ autolinks parse (stripCodeBlocks rawContent)
             @ anchorLinks parse (stripCodeBlocks rawContent))"
    by (simp add: encounters_def collectFileLinks_def Let_def)
  from a b c d e kinds_sorted [of parse content] show ?thesis
    by blast
qed

theorem scanFiles_one_record_per_url_witness:
  "length (filter (\<lambda>e. fst e = ''https://x.com/'')
      (encounters sampleURL [(''a.md'', ''[a](https://x.com/)''), (''b.md'', ''see <https://x.com/>'')])) = 2
   \<and> map_of (scanFiles sampleURL [(''a.md'', ''[a](https://x.com/)''), (''b.md'', ''see <https://x.com/>'')])
        ''https://x.com/''
      = Some [\<lparr>file = ''a.md'', line = 1\<rparr>, \<lparr>file = ''b.md'', line = 1\<rparr>]"
proof -
  let ?files = "[(''a.md'', ''[a](https://x.com/)''), (''b.md'', ''see <https://x.com/>'')]"
  have n: "length (filter (\<lambda>e. fst e = ''https://x.com/'') (encounters sampleURL ?files)) = 2"
    by code_simp
  have o: "occurrencesOf ''https://x.com/'' (encounters sampleURL ?files)
      = [\<lparr>file = ''a.md'', line = 1\<rparr>, \<lparr>file = ''b.md'', line = 1\<rparr>]"
    by code_simp
  from scanFiles_one_record_per_url [of sampleURL ?files "''https://x.com/''"]
  have "map_of (scanFiles sampleURL ?files) ''https://x.com/'' =
      (if occurrencesOf ''https://x.com/'' (encounters sampleURL ?files) = [] then None
       else Some (occurrencesOf ''https://x.com/'' (encounters sampleURL ?files)))"
    by blast
  then have "map_of (scanFiles sampleURL ?files) ''https://x.com/''
      = Some [\<lparr>file = ''a.md'', line = 1\<rparr>, \<lparr>file = ''b.md'', line = 1\<rparr>]"
    by (simp add: o)
  moreover from scanFiles_one_record_per_url [of sampleURL ?files "''https://x.com/''"] n
  have "\<exists>first second. map_of (scanFiles sampleURL ?files) ''https://x.com/'' = Some [first, second]"
    by blast
  ultimately show ?thesis using n by blast
qed

text \<open>
  The claim as stated lists the occurrences of a file by their position in the file;
  an autolink on line 1 and a markdown link on line 2 to the same URL are listed with
  line 2 first.
\<close>

theorem occurrences_by_position_counterexample:
  "map_of (scanFiles sampleURL [(''a.md'', ''<https://x.com/>\<newline>[a](https://x.com/)'')]) ''https://x.com/''
     = Some [\<lparr>file = ''a.md'', line = 2\<rparr>, \<lparr>file = ''a.md'', line = 1\<rparr>]"
  by code_simp

section \<open>Properties of the report\<close>

lemma set_insertFailed: "set (insertFailed cmp x ys) = insert x (set ys)"
  by (induction ys) auto

lemma mset_insertFailed: "mset (insertFailed cmp x ys) = add_mset x (mset ys)"
  by (induction ys) auto

lemma mset_sortFailed: "mset (sortFailed cmp xs) = mset xs"
  by (induction xs) (simp_all add: sortFailed_def mset_insertFailed)

lemma sorted_insertFailed:
  assumes total: "\<And>a b. cmp a b \<le> 0 \<or> cmp b a \<le> (0::int)"
    and trans: "\<And>a b c. cmp a b \<le> 0 \<Longrightarrow> cmp b c \<le> 0 \<Longrightarrow> cmp a c \<le> 0"
    and s: "sorted_wrt (\<lambda>a b. cmp (url a) (url b) \<le> 0) ys"
  shows "sorted_wrt (\<lambda>a b. cmp (url a) (url b) \<le> 0) (insertFailed cmp x ys)"
  using s
proof (induction ys)
  case Nil
  then show ?case by simp
next
  case (Cons y ys)
  show ?case
  proof (cases "cmp (url x) (url y) \<le> 0")
    case True
    with Cons.prems have "\<forall>z \<in> set ys. cmp (url x) (url z) \<le> 0"
      using trans by auto
    with True Cons.prems show ?thesis by simp
  next
    case False
    with total [of "url x" "url y"] have "cmp (url y) (url x) \<le> 0" by simp
    with False Cons show ?thesis
      by (simp add: set_insertFailed)
  qed
qed

lemma sorted_sortFailed:
  assumes "\<And>a b. cmp a b \<le> 0 \<or> cmp b a \<le> (0::int)"
    and "\<And>a b c. cmp a b \<le> 0 \<Longrightarrow> cmp b c \<le> 0 \<Longrightarrow> cmp a c \<le> 0"
  shows "sorted_wrt (\<lambda>a b. cmp (url a) (url b) \<le> 0) (sortFailed cmp xs)"
proof (induction xs)
  case Nil
  then show ?case by (simp add: sortFailed_def)
next
  case (Cons x xs)
  from sorted_insertFailed [of cmp, OF assms] Cons show ?case
    by (simp add: sortFailed_def)
qed

lemma mset_concat_map:
  "mset (concat (map f xs)) = (\<Sum>x\<in>#mset xs. mset (f x))"
  by (induction xs) simp_all

lemma failedOf_mset:
  "mset xs = mset ys \<Longrightarrow> mset (failedOf net m xs) = mset (failedOf net m ys)"
  by (simp add: failedOf_def mset_concat_map)

lemma lexCompare_Cons:
  "lexCompare (x # xs) (y # ys) \<le> 0 \<longleftrightarrow> x < y \<or> (x = y \<and> lexCompare xs ys \<le> 0)"
  by auto

lemma lexCompare_total: "lexCompare a b \<le> 0 \<or> lexCompare b a \<le> 0"
proof (induction a arbitrary: b)
  case Nil
  then show ?case by (cases b) simp_all
next
  case (Cons x xs)
  show ?case
  proof (cases b)
    case Nil
    then show ?thesis by simp
  next
    case (Cons y ys)
    have "x < y \<or> x = y \<or> y < x" by (rule less_linear)
    with Cons.IH [of ys] show ?thesis
      unfolding Cons lexCompare_Cons by blast
  qed
qed

lemma lexCompare_antisym:
  "lexCompare a b \<le> 0 \<Longrightarrow> lexCompare b a \<le> 0 \<Longrightarrow> a = b"
proof (induction a arbitrary: b)
  case Nil
  then show ?case by (cases b) simp_all
next
  case (Cons x xs)
  show ?case
  proof (cases b)
    case Nil
    with Cons.prems show ?thesis by simp
  next
    case c: (Cons y ys)
    from Cons.prems have "x = y" and "lexCompare xs ys \<le> 0" and "lexCompare ys xs \<le> 0"
      unfolding c lexCompare_Cons by auto
    with Cons.IH [of ys] c show ?thesis by simp
  qed
qed

lemma lexCompare_trans:
  "lexCompare a b \<le> 0 \<Longrightarrow> lexCompare b c \<le> 0 \<Longrightarrow> lexCompare a c \<le> 0"
proof (induction a arbitrary: b c)
  case Nil
  then show ?case by (cases c) simp_all
next
  case (Cons x xs)
  from Cons.prems(1) obtain y ys where b: "b = y # ys" by (cases b) simp_all
  from Cons.prems(2) b obtain z zs where c: "c = z # zs" by (cases c) simp_all
  from Cons.prems have 1: "x < y \<or> (x = y \<and> lexCompare xs ys \<le> 0)"
    and 2: "y < z \<or> (y = z \<and> lexCompare ys zs \<le> 0)"
    unfolding b c lexCompare_Cons by simp_all
  have "x < z \<or> (x = z \<and> lexCompare xs zs \<le> 0)"
  proof (cases "x = y \<and> y = z")
    case True
    with 1 2 have "lexCompare xs ys \<le> 0" "lexCompare ys zs \<le> 0" by simp_all
    with Cons.IH [of ys zs] True show ?thesis by simp
  next
    case False
    with 1 2 have "x < z" by auto
    then show ?thesis by simp
  qed
  then show ?case unfolding c lexCompare_Cons .
qed

lemma lexCompare_same: "lexCompare a a = 0"
  by (induction a) simp_all

lemma lexCompare_zero: "lexCompare a b = 0 \<Longrightarrow> a = b"
proof (induction a arbitrary: b)
  case Nil
  then show ?case by (cases b) simp_all
next
  case (Cons x xs)
  show ?case
  proof (cases b)
    case Nil
    with Cons.prems show ?thesis by simp
  next
    case c: (Cons y ys)
    from Cons.prems have "x = y \<and> lexCompare xs ys = 0"
      unfolding c by (simp split: if_splits)
    with Cons.IH [of ys] c show ?thesis by simp
  qed
qed

text \<open>The comparison on two levels, as an order of the pairs of keys.\<close>

lemma localeCompare_root_le:
  "localeCompare_root a b \<le> 0 \<longleftrightarrow>
     (map primaryWeight a \<noteq> map primaryWeight b
        \<and> lexCompare (map primaryWeight a) (map primaryWeight b) \<le> 0)
     \<or> (map primaryWeight a = map primaryWeight b
        \<and> lexCompare (map caseWeight a) (map caseWeight b) \<le> 0)"
proof (cases "lexCompare (map primaryWeight a) (map primaryWeight b) = 0")
  case True
  then have "map primaryWeight a = map primaryWeight b" by (rule lexCompare_zero)
  with True show ?thesis by (simp add: localeCompare_root_def)
next
  case False
  then have "map primaryWeight a \<noteq> map primaryWeight b"
    using lexCompare_same [of "map primaryWeight a"] by auto
  with False show ?thesis by (simp add: localeCompare_root_def)
qed

lemma localeCompare_root_total: "localeCompare_root a b \<le> 0 \<or> localeCompare_root b a \<le> 0"
  unfolding localeCompare_root_le
  using lexCompare_total [of "map primaryWeight a" "map primaryWeight b"]
    lexCompare_total [of "map caseWeight a" "map caseWeight b"]
  by metis

lemma localeCompare_root_trans:
  assumes "localeCompare_root a b \<le> 0" and "localeCompare_root b c \<le> 0"
  shows "localeCompare_root a c \<le> 0"
proof -
  let ?P = "map primaryWeight" and ?T = "map caseWeight"
  from assms have 1: "(?P a \<noteq> ?P b \<and> lexCompare (?P a) (?P b) \<le> 0) \<or> (?P a = ?P b \<and> lexCompare (?T a) (?T b) \<le> 0)"
    and 2: "(?P b \<noteq> ?P c \<and> lexCompare (?P b) (?P c) \<le> 0) \<or> (?P b = ?P c \<and> lexCompare (?T b) (?T c) \<le> 0)"
    unfolding localeCompare_root_le by simp_all
  from 1 have ab: "lexCompare (?P a) (?P b) \<le> 0" by (auto simp add: lexCompare_same)
  from 2 have bc: "lexCompare (?P b) (?P c) \<le> 0" by (auto simp add: lexCompare_same)
  from ab bc have ac: "lexCompare (?P a) (?P c) \<le> 0" by (rule lexCompare_trans)
  show ?thesis
  proof (cases "?P a = ?P c")
    case False
    with ac show ?thesis unfolding localeCompare_root_le by simp
  next
    case True
    with ab bc have "?P a = ?P b" by (metis lexCompare_antisym)
    with True 1 2 have "lexCompare (?T a) (?T b) \<le> 0" "lexCompare (?T b) (?T c) \<le> 0" by simp_all
    then have "lexCompare (?T a) (?T c) \<le> 0" by (rule lexCompare_trans)
    with True show ?thesis unfolding localeCompare_root_le by simp
  qed
qed

lemma localeCompare_root_keys:
  assumes "localeCompare_root a b \<le> 0" and "localeCompare_root b a \<le> 0"
  shows "map primaryWeight a = map primaryWeight b \<and> map caseWeight a = map caseWeight b"
proof -
  let ?P = "map primaryWeight" and ?T = "map caseWeight"
  from assms have 1: "(?P a \<noteq> ?P b \<and> lexCompare (?P a) (?P b) \<le> 0) \<or> (?P a = ?P b \<and> lexCompare (?T a) (?T b) \<le> 0)"
    and 2: "(?P b \<noteq> ?P a \<and> lexCompare (?P b) (?P a) \<le> 0) \<or> (?P b = ?P a \<and> lexCompare (?T b) (?T a) \<le> 0)"
    unfolding localeCompare_root_le by simp_all
  have p: "?P a = ?P b"
  proof (rule ccontr)
    assume "?P a \<noteq> ?P b"
    with 1 2 have "lexCompare (?P a) (?P b) \<le> 0" "lexCompare (?P b) (?P a) \<le> 0" by auto
    then have "?P a = ?P b" by (rule lexCompare_antisym)
    with \<open>?P a \<noteq> ?P b\<close> show False by simp
  qed
  with 1 2 have "lexCompare (?T a) (?T b) \<le> 0" "lexCompare (?T b) (?T a) \<le> 0" by simp_all
  then have "?T a = ?T b" by (rule lexCompare_antisym)
  with p show ?thesis by simp
qed

lemma indexOf_nth: "c \<in> set s \<Longrightarrow> indexOf c s < length s \<and> s ! indexOf c s = c"
proof (induction s)
  case Nil
  then show ?case by simp
next
  case (Cons x xs)
  then show ?case by (cases "x = c") (simp_all add: indexOf_def)
qed

lemma asciiLower_inj:
  assumes "asciiLower c = asciiLower d" and "caseWeight c = caseWeight d"
  shows "c = d"
proof (cases "65 \<le> (of_char c :: nat) \<and> (of_char c :: nat) \<le> 90")
  case True
  with assms(2) have d: "65 \<le> (of_char d :: nat) \<and> (of_char d :: nat) \<le> 90"
    by (simp add: caseWeight_def Let_def split: if_splits)
  with True assms(1) have "(char_of (of_char c + 32 :: nat) :: char) = char_of (of_char d + 32 :: nat)"
    by (simp add: asciiLower_def Let_def)
  then have "(of_char c + 32 :: nat) mod 256 = (of_char d + 32 :: nat) mod 256"
    by (simp add: char_of_eq_iff take_bit_eq_mod)
  with True d have "(of_char c :: nat) = of_char d" by simp
  then show ?thesis by simp
next
  case False
  with assms(2) have d: "\<not> (65 \<le> (of_char d :: nat) \<and> (of_char d :: nat) \<le> 90)"
    by (simp add: caseWeight_def Let_def split: if_splits)
  from False have "c = asciiLower c" unfolding asciiLower_def Let_def by (rule if_not_P [symmetric])
  also note assms(1)
  also from d have "asciiLower d = d" unfolding asciiLower_def Let_def by (rule if_not_P)
  finally show ?thesis .
qed

lemma collation_keys_inj:
  "collated a \<Longrightarrow> collated b \<Longrightarrow> map primaryWeight a = map primaryWeight b \<Longrightarrow>
   map caseWeight a = map caseWeight b \<Longrightarrow> a = b"
proof (induction a arbitrary: b)
  case Nil
  then show ?case by simp
next
  case (Cons c cs)
  from Cons.prems(3) obtain d ds where b: "b = d # ds" by (cases b) simp_all
  from Cons.prems(1) have in_c: "asciiLower c \<in> set collationOrder" and cs: "collated cs"
    unfolding collated_def by simp_all
  from Cons.prems(2) b have in_d: "asciiLower d \<in> set collationOrder" and ds: "collated ds"
    unfolding collated_def by simp_all
  from Cons.prems(3,4) b have p: "primaryWeight c = primaryWeight d" and t: "caseWeight c = caseWeight d"
    and ps: "map primaryWeight cs = map primaryWeight ds" and ts: "map caseWeight cs = map caseWeight ds"
    by simp_all
  from p have "indexOf (asciiLower c) collationOrder = indexOf (asciiLower d) collationOrder"
    unfolding primaryWeight_def .
  moreover from indexOf_nth [OF in_c]
  have "collationOrder ! indexOf (asciiLower c) collationOrder = asciiLower c" by (rule conjunct2)
  moreover from indexOf_nth [OF in_d]
  have "collationOrder ! indexOf (asciiLower d) collationOrder = asciiLower d" by (rule conjunct2)
  ultimately have "asciiLower c = asciiLower d" by metis
  from asciiLower_inj [OF this t] have "c = d" .
  moreover from cs ds ps ts have "cs = ds" by (rule Cons.IH)
  ultimately show ?case using b by simp
qed

lemma localeCompare_root_antisym:
  assumes "collated a" and "collated b"
    and "localeCompare_root a b \<le> 0" and "localeCompare_root b a \<le> 0"
  shows "a = b"
  using localeCompare_root_keys [OF assms(3,4)] collation_keys_inj [OF assms(1,2)] by simp

lemma localeCompare_root_zero:
  assumes "localeCompare_root a b = 0"
  shows "map primaryWeight a = map primaryWeight b \<and> map caseWeight a = map caseWeight b"
proof -
  have 1: "lexCompare (map primaryWeight a) (map primaryWeight b) = 0"
  proof (rule ccontr)
    assume n: "lexCompare (map primaryWeight a) (map primaryWeight b) \<noteq> 0"
    then have "localeCompare_root a b = lexCompare (map primaryWeight a) (map primaryWeight b)"
      by (simp add: localeCompare_root_def)
    with assms n show False by simp
  qed
  then have "localeCompare_root a b = lexCompare (map caseWeight a) (map caseWeight b)"
    by (simp add: localeCompare_root_def)
  with assms have "lexCompare (map caseWeight a) (map caseWeight b) = 0" by simp
  with 1 show ?thesis by (simp add: lexCompare_zero)
qed

lemma sorted_distinct_strict:
  "sorted_wrt P xs \<Longrightarrow> distinct (map f xs) \<Longrightarrow> sorted_wrt (\<lambda>a b. P a b \<and> f a \<noteq> f b) xs"
  by (induction xs) auto

text \<open>Two sorted lists of the same reports, with pairwise different URLs, are equal.\<close>

lemma sorted_reports_same:
  assumes antisym: "\<And>a b. a \<in> set xs \<Longrightarrow> b \<in> set xs \<Longrightarrow>
      cmp (url a) (url b) \<le> 0 \<Longrightarrow> cmp (url b) (url a) \<le> (0::int) \<Longrightarrow> url a = url b"
  shows "sorted_wrt (\<lambda>a b. cmp (url a) (url b) \<le> 0) xs \<Longrightarrow>
    sorted_wrt (\<lambda>a b. cmp (url a) (url b) \<le> 0) ys \<Longrightarrow>
    mset xs = mset ys \<Longrightarrow> distinct (map url xs) \<Longrightarrow> xs = ys"
  using antisym
proof (induction xs arbitrary: ys)
  case Nil
  then show ?case by simp
next
  case (Cons x xs)
  from Cons.prems(3) obtain y ys' where ys: "ys = y # ys'"
    by (cases ys) auto
  have xy: "x = y"
  proof (rule ccontr)
    assume ne: "x \<noteq> y"
    from Cons.prems(3) ys have "x \<in> set (y # ys')"
      by (metis list.set_intros(1) mset_eq_setD)
    with ne have "x \<in> set ys'" by simp
    with Cons.prems(2) ys have 1: "cmp (url y) (url x) \<le> 0" by simp
    from Cons.prems(3) ys have "y \<in> set (x # xs)"
      by (metis list.set_intros(1) mset_eq_setD)
    with ne have yin: "y \<in> set xs" by auto
    with Cons.prems(1) have 2: "cmp (url x) (url y) \<le> 0" by simp
    from yin have "x \<in> set (x # xs)" "y \<in> set (x # xs)" by simp_all
    from Cons.prems(5) [OF this 2 1] have "url x = url y" .
    with yin Cons.prems(4) show False by auto
  qed
  have "xs = ys'"
  proof (rule Cons.IH)
    from Cons.prems(1) show "sorted_wrt (\<lambda>a b. cmp (url a) (url b) \<le> 0) xs" by simp
    from Cons.prems(2) ys show "sorted_wrt (\<lambda>a b. cmp (url a) (url b) \<le> 0) ys'" by simp
    from Cons.prems(3) ys xy show "mset xs = mset ys'" by simp
    from Cons.prems(4) show "distinct (map url xs)" by simp
    fix a b
    assume "a \<in> set xs" "b \<in> set xs" "cmp (url a) (url b) \<le> 0" "cmp (url b) (url a) \<le> 0"
    then show "url a = url b" by (intro Cons.prems(5)) simp_all
  qed
  with xy ys show ?case by simp
qed

text \<open>
  C8, in the order of \<open>localeCompare\<close>: with the root collation as the comparison, and
  URLs of printable ASCII characters, the list that \<open>main\<close> reports is strictly
  ascending by URL in the order of the collation, under every schedule of the checks;
  it holds the unique URLs whose check failed; and it is the same list under every
  schedule.
\<close>

theorem main_report_sorted_by_collation:
  assumes ascii: "\<forall>u \<in> set (uniqueUrls (scanFiles parse files)). collated u"
    and run: "main parse net localeCompare_root files schedule = Some failed"
  shows "sorted_wrt (\<lambda>a b. localeCompare_root (url a) (url b) < 0) failed
    \<and> set (map url failed) = {u \<in> set (uniqueUrls (scanFiles parse files)). \<not> fst (checkUrl net u)}
    \<and> (\<forall>schedule' failed'. main parse net localeCompare_root files schedule' = Some failed' \<longrightarrow> failed' = failed)"
proof -
  let ?m = "scanFiles parse files"
  let ?items = "uniqueUrls ?m"
  let ?le = "\<lambda>a b. localeCompare_root (url a) (url b) \<le> 0"
  have limit: "1 \<le> MAX_CONCURRENCY" by (simp add: MAX_CONCURRENCY_def)
  have each: "mset (settled (runWithConcurrency ?items MAX_CONCURRENCY sch)) = mset ?items
      \<and> fd = sortFailed localeCompare_root (failedOf net ?m (settled (runWithConcurrency ?items MAX_CONCURRENCY sch)))"
    if "main parse net localeCompare_root files sch = Some fd" for sch fd
  proof -
    from that have r: "resolved (runWithConcurrency ?items MAX_CONCURRENCY sch)"
      and f: "fd = sortFailed localeCompare_root (failedOf net ?m (settled (runWithConcurrency ?items MAX_CONCURRENCY sch)))"
      by (auto simp add: main_def Let_def split: if_splits)
    have inv: "pool_inv ?items (runWithConcurrency ?items MAX_CONCURRENCY sch)"
      using spawn_inv [of ?items MAX_CONCURRENCY] by (simp add: runWithConcurrency_def run_inv)
    have "length (workers (runWithConcurrency ?items MAX_CONCURRENCY sch)) = min MAX_CONCURRENCY (length ?items)"
      using spawn_inv [of ?items MAX_CONCURRENCY] by (simp add: runWithConcurrency_def run_length)
    with limit have "workers (runWithConcurrency ?items MAX_CONCURRENCY sch) \<noteq> [] \<or> ?items = []"
      by (cases ?items) auto
    from resolved_done [OF inv r this] f show ?thesis by simp
  qed
  have report: "sorted_wrt ?le fd \<and> distinct (map url fd)
      \<and> mset (map url fd) = filter_mset (\<lambda>u. \<not> fst (checkUrl net u)) (mset ?items)
      \<and> mset fd = mset (failedOf net ?m ?items)"
    if run': "main parse net localeCompare_root files sch = Some fd" for sch fd
  proof -
    let ?settled = "settled (runWithConcurrency ?items MAX_CONCURRENCY sch)"
    from each [OF run'] have ms: "mset ?settled = mset ?items"
      and fd: "fd = sortFailed localeCompare_root (failedOf net ?m ?settled)" by simp_all
    have s: "sorted_wrt ?le fd"
      unfolding fd
      by (rule sorted_sortFailed [of localeCompare_root, OF localeCompare_root_total localeCompare_root_trans])
    have "mset (map url fd) = mset (map url (failedOf net ?m ?settled))"
      by (simp add: fd mset_sortFailed)
    also have "\<dots> = mset (filter (\<lambda>u. \<not> fst (checkUrl net u)) ?settled)"
      by (simp only: failedOf_urls)
    also have "\<dots> = filter_mset (\<lambda>u. \<not> fst (checkUrl net u)) (mset ?items)"
      by (simp add: ms)
    finally have urls: "mset (map url fd) = filter_mset (\<lambda>u. \<not> fst (checkUrl net u)) (mset ?items)" .
    have "distinct ?items" by (rule scanFiles_distinct)
    then have "distinct (filter (\<lambda>u. \<not> fst (checkUrl net u)) ?items)" by (rule distinct_filter)
    moreover from urls have "mset (map url fd) = mset (filter (\<lambda>u. \<not> fst (checkUrl net u)) ?items)"
      by simp
    ultimately have d: "distinct (map url fd)"
      by (metis mset_eq_imp_distinct_iff)
    from ms have "mset (failedOf net ?m ?settled) = mset (failedOf net ?m ?items)"
      by (rule failedOf_mset)
    then have "mset fd = mset (failedOf net ?m ?items)"
      by (simp add: fd mset_sortFailed)
    with s d urls show ?thesis by simp
  qed
  from report [OF run] have s: "sorted_wrt ?le failed" and d: "distinct (map url failed)"
    and urls: "mset (map url failed) = filter_mset (\<lambda>u. \<not> fst (checkUrl net u)) (mset ?items)"
    and ms: "mset failed = mset (failedOf net ?m ?items)" by blast+
  from arg_cong [OF urls, of set_mset]
  have b: "set (map url failed) = {u \<in> set ?items. \<not> fst (checkUrl net u)}"
    by simp
  have col: "collated (url x)" if "x \<in> set failed" for x
  proof -
    from that have "url x \<in> set (map url failed)" by simp
    with b have "url x \<in> set ?items" by simp
    with ascii show ?thesis by simp
  qed
  have antisym: "url x = url y"
    if "x \<in> set failed" "y \<in> set failed" "localeCompare_root (url x) (url y) \<le> 0"
      "localeCompare_root (url y) (url x) \<le> 0" for x y
    using localeCompare_root_antisym [OF col [OF that(1)] col [OF that(2)] that(3,4)] .
  from sorted_distinct_strict [OF s d]
  have "sorted_wrt (\<lambda>a b. localeCompare_root (url a) (url b) \<le> 0 \<and> url a \<noteq> url b) failed" .
  then have a: "sorted_wrt (\<lambda>a b. localeCompare_root (url a) (url b) < 0) failed"
  proof (rule sorted_wrt_mono_rel [rotated])
    fix x y
    assume x: "x \<in> set failed" and y: "y \<in> set failed"
      and le: "localeCompare_root (url x) (url y) \<le> 0 \<and> url x \<noteq> url y"
    have "localeCompare_root (url x) (url y) \<noteq> 0"
    proof
      assume "localeCompare_root (url x) (url y) = 0"
      from localeCompare_root_zero [OF this] collation_keys_inj [OF col [OF x] col [OF y]]
      have "url x = url y" by simp
      with le show False by simp
    qed
    with le show "localeCompare_root (url x) (url y) < 0" by simp
  qed
  have c: "failed' = failed"
    if run': "main parse net localeCompare_root files schedule' = Some failed'" for schedule' failed'
  proof -
    from report [OF run'] have s': "sorted_wrt ?le failed'"
      and ms': "mset failed' = mset (failedOf net ?m ?items)" by blast+
    from ms ms' have eq: "mset failed = mset failed'" by simp
    from sorted_reports_same [of failed localeCompare_root failed', OF antisym s s' eq d]
    show ?thesis by simp
  qed
  from a b c show ?thesis by blast
qed

theorem main_report_sorted_by_collation_witness:
  "collated ''https://gone.example/'' \<and> collated ''https://down.example/'' \<and> collated ''https://x.com/''
   \<and> main sampleURL demo_net localeCompare_root
      [(''a.md'', ''[g](https://gone.example/) [d](https://down.example/) [x](https://x.com/)'')] [0, 1, 2]
     = Some [\<lparr>url = ''https://down.example/'', reason = ''fetch failed'', occurrences = [\<lparr>file = ''a.md'', line = 1\<rparr>]\<rparr>,
             \<lparr>url = ''https://gone.example/'', reason = ''HTTP 404'', occurrences = [\<lparr>file = ''a.md'', line = 1\<rparr>]\<rparr>]
   \<and> sorted_wrt (\<lambda>a b. localeCompare_root (url a) (url b) < 0)
        [\<lparr>url = ''https://down.example/'', reason = ''fetch failed'', occurrences = [\<lparr>file = ''a.md'', line = 1\<rparr>]\<rparr>,
         \<lparr>url = ''https://gone.example/'', reason = ''HTTP 404'', occurrences = [\<lparr>file = ''a.md'', line = 1\<rparr>]\<rparr>]
   \<and> settled (runWithConcurrency [''https://gone.example/'', ''https://down.example/'', ''https://x.com/'']
          MAX_CONCURRENCY [2, 1, 0])
      = [''https://x.com/'', ''https://down.example/'', ''https://gone.example/'']
   \<and> main sampleURL demo_net localeCompare_root
      [(''a.md'', ''[g](https://gone.example/) [d](https://down.example/) [x](https://x.com/)'')] [2, 1, 0]
     = Some [\<lparr>url = ''https://down.example/'', reason = ''fetch failed'', occurrences = [\<lparr>file = ''a.md'', line = 1\<rparr>]\<rparr>,
             \<lparr>url = ''https://gone.example/'', reason = ''HTTP 404'', occurrences = [\<lparr>file = ''a.md'', line = 1\<rparr>]\<rparr>]"
proof -
  let ?files = "[(''a.md'', ''[g](https://gone.example/) [d](https://down.example/) [x](https://x.com/)'')]"
  let ?report = "[\<lparr>url = ''https://down.example/'', reason = ''fetch failed'', occurrences = [\<lparr>file = ''a.md'', line = 1\<rparr>]\<rparr>,
     \<lparr>url = ''https://gone.example/'', reason = ''HTTP 404'', occurrences = [\<lparr>file = ''a.md'', line = 1\<rparr>]\<rparr>]"
  let ?m = "[(''https://gone.example/'', [\<lparr>file = ''a.md'', line = 1\<rparr>]),
      (''https://down.example/'', [\<lparr>file = ''a.md'', line = 1\<rparr>]),
      (''https://x.com/'', [\<lparr>file = ''a.md'', line = 1\<rparr>])]"
  let ?urls = "[''https://gone.example/'', ''https://down.example/'', ''https://x.com/'']"
  have m: "scanFiles sampleURL ?files = ?m"
    by code_simp
  have u: "uniqueUrls ?m = ?urls"
    by (simp add: uniqueUrls_def)
  have c1: "collated ''https://gone.example/''" by code_simp
  have c2: "collated ''https://down.example/''" by code_simp
  have c3: "collated ''https://x.com/''" by code_simp
  from c1 c2 c3 have ascii: "\<forall>u \<in> set (uniqueUrls (scanFiles sampleURL ?files)). collated u"
    unfolding m u by simp
  have r: "resolved (runWithConcurrency ?urls MAX_CONCURRENCY [0, 1, 2])"
    by code_simp
  have s: "settled (runWithConcurrency ?urls MAX_CONCURRENCY [0, 1, 2]) = ?urls"
    by code_simp
  have f: "sortFailed localeCompare_root (failedOf demo_net ?m ?urls) = ?report"
    by code_simp
  have run: "main sampleURL demo_net localeCompare_root ?files [0, 1, 2] = Some ?report"
    unfolding main_def Let_def m u by (simp only: r s f if_True)
  note t = main_report_sorted_by_collation [OF ascii run]
  from t have sorted: "sorted_wrt (\<lambda>a b. localeCompare_root (url a) (url b) < 0) ?report"
    by (rule conjunct1)
  have r': "resolved (runWithConcurrency ?urls MAX_CONCURRENCY [2, 1, 0])"
    by code_simp
  have s': "settled (runWithConcurrency ?urls MAX_CONCURRENCY [2, 1, 0])
      = [''https://x.com/'', ''https://down.example/'', ''https://gone.example/'']"
    by code_simp
  have other: "main sampleURL demo_net localeCompare_root ?files [2, 1, 0]
      = Some (sortFailed localeCompare_root (failedOf demo_net ?m
          (settled (runWithConcurrency ?urls MAX_CONCURRENCY [2, 1, 0]))))"
    unfolding main_def Let_def m u by (simp only: r' if_True)
  from t have same: "\<And>schedule' failed'.
      main sampleURL demo_net localeCompare_root ?files schedule' = Some failed' \<Longrightarrow> failed' = ?report"
    by blast
  from same [OF other] other
  have run': "main sampleURL demo_net localeCompare_root ?files [2, 1, 0] = Some ?report"
    by simp
  from c1 c2 c3 run sorted s' run' show ?thesis by (intro conjI)
qed

text \<open>
  The claim as stated orders the report lexicographically: the report lists
  \<open>https://x.com/a\<close> before \<open>https://x.com/B\<close>, the letter a before the letter b as the
  collation has it, while by the code units the upper case B (66) goes before the lower
  case a (97).
\<close>

theorem report_not_in_code_unit_order_counterexample:
  "main letterURL gone_net localeCompare_root
      [(''a.md'', ''[b](https://x.com/B) [a](https://x.com/a)'')] [0, 1]
     = Some [\<lparr>url = ''https://x.com/a'', reason = ''HTTP 404'', occurrences = [\<lparr>file = ''a.md'', line = 1\<rparr>]\<rparr>,
             \<lparr>url = ''https://x.com/B'', reason = ''HTTP 404'', occurrences = [\<lparr>file = ''a.md'', line = 1\<rparr>]\<rparr>]
   \<and> codeUnitCompare ''https://x.com/a'' ''https://x.com/B'' = 1"
proof -
  let ?files = "[(''a.md'', ''[b](https://x.com/B) [a](https://x.com/a)'')]"
  let ?m = "[(''https://x.com/B'', [\<lparr>file = ''a.md'', line = 1\<rparr>]),
      (''https://x.com/a'', [\<lparr>file = ''a.md'', line = 1\<rparr>])]"
  let ?urls = "[''https://x.com/B'', ''https://x.com/a'']"
  let ?report = "[\<lparr>url = ''https://x.com/a'', reason = ''HTTP 404'', occurrences = [\<lparr>file = ''a.md'', line = 1\<rparr>]\<rparr>,
     \<lparr>url = ''https://x.com/B'', reason = ''HTTP 404'', occurrences = [\<lparr>file = ''a.md'', line = 1\<rparr>]\<rparr>]"
  have m: "scanFiles letterURL ?files = ?m"
    by code_simp
  have u: "uniqueUrls ?m = ?urls"
    by (simp add: uniqueUrls_def)
  have r: "resolved (runWithConcurrency ?urls MAX_CONCURRENCY [0, 1])"
    by code_simp
  have s: "settled (runWithConcurrency ?urls MAX_CONCURRENCY [0, 1]) = ?urls"
    by code_simp
  have f: "sortFailed localeCompare_root (failedOf gone_net ?m ?urls) = ?report"
    by code_simp
  have run: "main letterURL gone_net localeCompare_root ?files [0, 1] = Some ?report"
    unfolding main_def Let_def m u by (simp only: r s f if_True)
  have "codeUnitCompare ''https://x.com/a'' ''https://x.com/B'' = 1"
    by code_simp
  with run show ?thesis by (intro conjI)
qed

section \<open>Properties of the code blocks\<close>

lemma lazyUntilFence_split:
  "lazyUntilFence s = Some (body, rest) \<Longrightarrow> s = body @ fence @ rest"
proof (induction s arbitrary: body)
  case Nil
  then show ?case by simp
next
  case (Cons c cs)
  show ?case
  proof (cases "take 3 (c # cs) = fence")
    case True
    with Cons.prems have "body = []" "rest = drop 3 (c # cs)" by simp_all
    with True show ?thesis
      by (metis append_Nil append_take_drop_id)
  next
    case False
    with Cons.prems obtain b where "lazyUntilFence cs = Some (b, rest)" and "body = c # b"
      by (auto split: option.splits)
    with Cons.IH [of b] show ?thesis by simp
  qed
qed

lemma codeBlockAt_split:
  "codeBlockAt s = Some (m, rest) \<Longrightarrow> s = m @ rest"
proof -
  assume a: "codeBlockAt s = Some (m, rest)"
  then have f: "take 3 s = fence"
    by (simp add: codeBlockAt_def split: if_splits)
  with a obtain body where b: "lazyUntilFence (drop 3 s) = Some (body, rest)" and m: "m = fence @ body @ fence"
    by (auto simp add: codeBlockAt_def split: option.splits)
  from lazyUntilFence_split [OF b] have "drop 3 s = body @ fence @ rest" .
  with f have "s = fence @ body @ fence @ rest"
    by (metis append_take_drop_id)
  with m show ?thesis by simp
qed

lemma stripCodeBlocks_newlines: "countNewlines (stripCodeBlocks s) = countNewlines s"
proof (induction s rule: stripCodeBlocks.induct)
  case 1
  then show ?case by simp
next
  case (2 c cs)
  show ?case
  proof (cases "codeBlockAt (c # cs)")
    case None
    with 2(1) show ?thesis by (simp add: countNewlines_def)
  next
    case (Some r)
    obtain m rest where r: "r = (m, rest)" by (cases r)
    from Some r have "c # cs = m @ rest" by (simp add: codeBlockAt_split)
    then have "countNewlines (c # cs) = countNewlines m + countNewlines rest"
      by (simp add: countNewlines_append)
    moreover from 2(2) [OF Some, of m rest] r
    have "countNewlines (stripCodeBlocks rest) = countNewlines rest" by simp
    moreover have "countNewlines (replicate n (CHR 0x0A)) = n" for n
      by (simp add: countNewlines_def)
    ultimately show ?thesis using Some r
      by (simp add: countNewlines_append)
  qed
qed

lemma no_fence_whatever_follows:
  "take 3 (u @ ''``'') \<noteq> fence \<Longrightarrow> u \<noteq> [] \<Longrightarrow> take 3 (u @ rest) \<noteq> fence"
proof (cases u)
  case Nil
  then show "u \<noteq> [] \<Longrightarrow> ?thesis" by simp
next
  case a: (Cons a u1)
  assume nf: "take 3 (u @ ''``'') \<noteq> fence"
  show ?thesis
  proof (cases u1)
    case Nil
    with a nf show ?thesis by (cases rest) (auto simp add: fence_def)
  next
    case b: (Cons b u2)
    show ?thesis
    proof (cases u2)
      case Nil
      with a b nf show ?thesis by (cases rest) (auto simp add: fence_def)
    next
      case (Cons c u3)
      with a b nf show ?thesis by (simp add: fence_def)
    qed
  qed
qed

lemma stripCodeBlocks_text:
  "fenceFree plain \<Longrightarrow> stripCodeBlocks (plain @ rest) = plain @ stripCodeBlocks rest"
proof (induction plain)
  case Nil
  then show ?case by simp
next
  case (Cons c cs)
  then have "take 3 ((c # cs) @ ''``'') \<noteq> fence" by simp
  then have "take 3 ((c # cs) @ rest) \<noteq> fence"
    by (rule no_fence_whatever_follows) simp
  then have "codeBlockAt (c # cs @ rest) = None"
    by (simp add: codeBlockAt_def)
  with Cons show ?case by simp
qed

lemma lazyUntilFence_body:
  "fenceFree body \<Longrightarrow> lazyUntilFence (body @ fence @ rest) = Some (body, rest)"
proof (induction body)
  case Nil
  then show ?case by (cases rest) (simp_all add: fence_def)
next
  case (Cons c cs)
  then have "take 3 ((c # cs) @ ''``'') \<noteq> fence" by simp
  then have "take 3 ((c # cs) @ fence @ rest) \<noteq> fence"
    by (rule no_fence_whatever_follows) simp
  with Cons show ?case by simp
qed

lemma stripCodeBlocks_block:
  assumes "fenceFree body"
  shows "stripCodeBlocks (fence @ body @ fence @ rest) = replicate (countNewlines body) (CHR 0x0A) @ stripCodeBlocks rest"
proof -
  have "codeBlockAt (fence @ body @ fence @ rest) = Some (fence @ body @ fence, rest)"
    using lazyUntilFence_body [OF assms, of rest] by (simp add: codeBlockAt_def fence_def)
  moreover have "countNewlines (fence @ body @ fence) = countNewlines body"
    by (simp add: countNewlines_def fence_def)
  moreover obtain c cs where "fence @ body @ fence @ rest = c # cs"
    by (simp add: fence_def)
  ultimately show ?thesis by simp
qed


lemma lazyUntilFence_fenceFree:
  "lazyUntilFence s = Some (body, rest) \<Longrightarrow> fenceFree body"
proof (induction s arbitrary: body)
  case Nil
  then show ?case by simp
next
  case (Cons c cs)
  show ?case
  proof (cases "take 3 (c # cs) = fence")
    case True
    with Cons.prems show ?thesis by simp
  next
    case False
    with Cons.prems obtain b where b: "lazyUntilFence cs = Some (b, rest)" and body: "body = c # b"
      by (auto split: option.splits)
    from lazyUntilFence_split [OF b] have cs: "cs = b @ fence @ rest" .
    have "take 3 ((c # b) @ ''``'') \<noteq> fence"
    proof
      assume "take 3 ((c # b) @ ''``'') = fence"
      then have "take 3 ((c # b) @ ''``'' @ (CHR 0x60 # rest)) = fence"
        by (cases b; cases "tl b") (auto simp add: fence_def)
      with cs False show False by (simp add: fence_def)
    qed
    with Cons.IH [OF b] body show ?thesis by simp
  qed
qed

lemma lazyUntilFence_finds:
  "lazyUntilFence (x @ fence @ y) \<noteq> None"
proof (induction x)
  case Nil
  then show ?case by (simp add: fence_def)
next
  case (Cons c x)
  then show ?case by (auto split: option.splits)
qed

text \<open>Every document either has no code block, or splits at its first code block.\<close>

lemma first_block:
  "stripCodeBlocks doc = doc
   \<or> (\<exists>plain body rest. doc = plain @ fence @ body @ fence @ rest \<and> fenceFree plain \<and> fenceFree body)"
proof (induction doc)
  case Nil
  then show ?case by simp
next
  case (Cons c cs)
  show ?case
  proof (cases "codeBlockAt (c # cs)")
    case (Some r)
    obtain m rest where r: "r = (m, rest)" by (cases r)
    from Some r have f: "take 3 (c # cs) = fence"
      by (simp add: codeBlockAt_def split: if_splits)
    with Some r obtain body where b: "lazyUntilFence (drop 3 (c # cs)) = Some (body, rest)"
      by (auto simp add: codeBlockAt_def split: option.splits)
    from lazyUntilFence_split [OF b] f have "c # cs = [] @ fence @ body @ fence @ rest"
      by (metis append_Nil append_take_drop_id)
    moreover from b have "fenceFree body" by (rule lazyUntilFence_fenceFree)
    ultimately show ?thesis by (metis fenceFree.simps(1))
  next
    case None
    from Cons.IH show ?thesis
    proof
      assume "stripCodeBlocks cs = cs"
      with None show ?thesis by simp
    next
      assume "\<exists>plain body rest. cs = plain @ fence @ body @ fence @ rest \<and> fenceFree plain \<and> fenceFree body"
      then obtain plain body rest where cs: "cs = plain @ fence @ body @ fence @ rest"
        and p: "fenceFree plain" and b: "fenceFree body" by blast
      have nf: "take 3 (c # cs) \<noteq> fence"
      proof
        assume f: "take 3 (c # cs) = fence"
        then have "3 \<le> length (c # cs)" by (rule take3_fence)
        have "\<exists>x y. drop 3 (c # cs) = x @ fence @ y"
        proof (cases "2 \<le> length plain")
          case True
          then have "drop 3 (c # cs) = drop 2 plain @ fence @ (body @ fence @ rest)"
            by (simp add: cs)
          then show ?thesis by blast
        next
          case False
          then have "length plain = 0 \<or> length plain = 1" by arith
          then have "\<exists>z. drop 3 (c # cs) = z @ fence @ rest \<and> drop 2 (plain @ fence @ body) = z"
            by (auto simp add: cs fence_def)
          then show ?thesis by blast
        qed
        then obtain x y where "drop 3 (c # cs) = x @ fence @ y" by blast
        with lazyUntilFence_finds [of x y] obtain b' r' where "lazyUntilFence (drop 3 (c # cs)) = Some (b', r')"
          by (cases "lazyUntilFence (drop 3 (c # cs))") auto
        with f have "codeBlockAt (c # cs) = Some (fence @ b' @ fence, r')"
          unfolding codeBlockAt_def by simp
        with None show False by simp
      qed
      have "take 3 ((c # plain) @ ''``'') \<noteq> fence"
      proof
        assume "take 3 ((c # plain) @ ''``'') = fence"
        then have "take 3 ((c # plain) @ ''``'' @ (CHR 0x60 # body @ fence @ rest)) = fence"
          by (cases plain; cases "tl plain") (auto simp add: fence_def)
        with nf cs show False by (simp add: fence_def)
      qed
      with p have "fenceFree (c # plain)" by simp
      moreover from cs have "c # cs = (c # plain) @ fence @ body @ fence @ rest" by simp
      ultimately show ?thesis using b by blast
    qed
  qed
qed

lemma lazyUntilFence_append:
  "lazyUntilFence x = Some (b, r) \<Longrightarrow> lazyUntilFence (x @ y) = Some (b, r @ y)"
proof (induction x arbitrary: b)
  case Nil
  then show ?case by simp
next
  case (Cons c cs)
  from lazyUntilFence_length [OF Cons.prems] have len: "3 \<le> length (c # cs)" by simp
  then have t: "take 3 ((c # cs) @ y) = take 3 (c # cs)" by simp
  from len have d: "drop 3 ((c # cs) @ y) = drop 3 (c # cs) @ y" by simp
  show ?case
  proof (cases "take 3 (c # cs) = fence")
    case True
    with Cons.prems have "b = []" "r = drop 3 (c # cs)" by simp_all
    moreover from True t have "take 3 (c # cs @ y) = fence" by (metis append_Cons)
    ultimately show ?thesis using d by simp
  next
    case False
    with Cons.prems obtain b' where b': "lazyUntilFence cs = Some (b', r)" and b: "b = c # b'"
      by (auto split: option.splits)
    from False t have "take 3 (c # cs @ y) \<noteq> fence" by (metis append_Cons)
    with Cons.IH [OF b'] b show ?thesis by simp
  qed
qed

lemma codeBlockAt_append:
  "codeBlockAt x = Some (m, r) \<Longrightarrow> codeBlockAt (x @ y) = Some (m, r @ y)"
proof -
  assume a: "codeBlockAt x = Some (m, r)"
  then have f: "take 3 x = fence"
    by (simp add: codeBlockAt_def split: if_splits)
  with a obtain body where b: "lazyUntilFence (drop 3 x) = Some (body, r)" and m: "m = fence @ body @ fence"
    by (auto simp add: codeBlockAt_def split: option.splits)
  from f have len: "3 \<le> length x" by (rule take3_fence)
  then have "take 3 (x @ y) = fence" "drop 3 (x @ y) = drop 3 x @ y"
    using f by simp_all
  with lazyUntilFence_append [OF b, of y] m show ?thesis
    by (simp add: codeBlockAt_def)
qed

lemma codeBlockAt_again:
  assumes "codeBlockAt s = Some (m, rest)"
  shows "codeBlockAt (m @ z) = Some (m, z)"
proof -
  from assms have f: "take 3 s = fence"
    by (simp add: codeBlockAt_def split: if_splits)
  with assms obtain body where b: "lazyUntilFence (drop 3 s) = Some (body, rest)" and m: "m = fence @ body @ fence"
    by (auto simp add: codeBlockAt_def split: option.splits)
  from b have "fenceFree body" by (rule lazyUntilFence_fenceFree)
  from lazyUntilFence_body [OF this, of z] m show ?thesis
    by (simp add: codeBlockAt_def fence_def)
qed

lemma strip_block_prefix:
  assumes "codeBlockAt s = Some (m, rest)"
  shows "stripCodeBlocks (m @ z) = replicate (countNewlines m) (CHR 0x0A) @ stripCodeBlocks z"
proof -
  from assms have "take 3 s = fence"
    by (simp add: codeBlockAt_def split: if_splits)
  with assms obtain body where "m = fence @ body @ fence"
    by (auto simp add: codeBlockAt_def split: option.splits)
  then obtain c cs where "m @ z = c # cs" by (auto simp add: fence_def)
  with codeBlockAt_again [OF assms, of z] show ?thesis by simp
qed

lemma markdownLinkAt_start:
  "markdownLinkAt prev s = Some r \<Longrightarrow> s \<noteq> [] \<and> startsLink (hd s)"
  by (cases s) (auto simp add: markdownLinkAt_def startsLink_def split: if_splits)

lemma autolinkAt_start:
  "autolinkAt prev s = Some r \<Longrightarrow> s \<noteq> [] \<and> startsLink (hd s)"
  by (cases s) (auto simp add: autolinkAt_def startsLink_def split: if_splits)

lemma htmlAnchorAt_start:
  "htmlAnchorAt prev s = Some r \<Longrightarrow> s \<noteq> [] \<and> startsLink (hd s)"
  by (cases s; cases "tl s") (auto simp add: htmlAnchorAt_def startsLink_def split: if_splits)

lemma execAll_positions:
  assumes starts: "\<forall>p t r. re p t = Some r \<longrightarrow> t \<noteq> [] \<and> startsLink (hd t)"
  shows "(i, cap) \<in> set (execAll re prev i0 lastIndex s) \<Longrightarrow>
    i0 \<le> i \<and> i - i0 < length s \<and> startsLink (s ! (i - i0))"
proof (induction s arbitrary: prev i0 lastIndex)
  case Nil
  then show ?case by simp
next
  case (Cons c cs)
  have later: "i0 \<le> i \<and> i - i0 < length (c # cs) \<and> startsLink ((c # cs) ! (i - i0))"
    if "(i, cap) \<in> set (execAll re p (Suc i0) l cs)" for p l
  proof -
    from Cons.IH [OF that] have "Suc i0 \<le> i" "i - Suc i0 < length cs" "startsLink (cs ! (i - Suc i0))"
      by simp_all
    moreover from this(1) have "i - i0 = Suc (i - Suc i0)" by simp
    ultimately show ?thesis by simp
  qed
  show ?case
  proof (cases "i0 < lastIndex")
    case True
    with Cons.prems later show ?thesis by simp
  next
    case False
    show ?thesis
    proof (cases "re prev (c # cs)")
      case None
      with False Cons.prems later show ?thesis by simp
    next
      case (Some r)
      obtain len cap' where r: "r = (len, cap')" by (cases r)
      from starts Some have here: "startsLink c" by fastforce
      from Some r False Cons.prems
      have "(i, cap) = (i0, cap') \<or> (i, cap) \<in> set (execAll re (Some c) (Suc i0) (i0 + len) cs)"
        by simp
      then show ?thesis
      proof
        assume "(i, cap) = (i0, cap')"
        with here show ?thesis by simp
      next
        assume "(i, cap) \<in> set (execAll re (Some c) (Suc i0) (i0 + len) cs)"
        then show ?thesis by (rule later)
      qed
    qed
  qed
qed

lemma nthNewline_spec:
  "i < countNewlines m \<Longrightarrow>
   nthNewline m i < length m \<and> m ! nthNewline m i = CHR 0x0A \<and> countNewlines (take (nthNewline m i) m) = i"
proof (induction m arbitrary: i)
  case Nil
  then show ?case by (simp add: countNewlines_def)
next
  case (Cons c cs)
  show ?case
  proof (cases "c = CHR 0x0A")
    case False
    with Cons.prems have "i < countNewlines cs" by (simp add: countNewlines_def)
    from Cons.IH [OF this] False show ?thesis by (simp add: countNewlines_def)
  next
    case True
    show ?thesis
    proof (cases i)
      case 0
      with True show ?thesis by (simp add: countNewlines_def)
    next
      case (Suc j)
      with True Cons.prems have "j < countNewlines cs" by (simp add: countNewlines_def)
      from Cons.IH [OF this] True Suc show ?thesis by (simp add: countNewlines_def)
    qed
  qed
qed

lemma countNewlines_replicate: "countNewlines (replicate n (CHR 0x0A)) = n"
  by (simp add: countNewlines_def)

text \<open>
  What \<open>originalIndex\<close> gives for a position of the stripped text: a position of the
  document with the same character and as many line feeds before it; and when the
  character is no line feed, the stripping of the document splits there.
\<close>

lemma originalIndex_spec:
  "i < length (stripCodeBlocks doc) \<Longrightarrow>
   originalIndex doc i < length doc
   \<and> doc ! originalIndex doc i = stripCodeBlocks doc ! i
   \<and> countNewlines (take (originalIndex doc i) doc) = countNewlines (take i (stripCodeBlocks doc))
   \<and> (stripCodeBlocks doc ! i \<noteq> CHR 0x0A \<longrightarrow>
        stripCodeBlocks doc = stripCodeBlocks (take (originalIndex doc i) doc)
                                @ stripCodeBlocks (drop (originalIndex doc i) doc)
        \<and> length (stripCodeBlocks (take (originalIndex doc i) doc)) = i)"
proof (induction doc arbitrary: i rule: stripCodeBlocks.induct)
  case 1
  then show ?case by simp
next
  case (2 c cs)
  show ?case
  proof (cases "codeBlockAt (c # cs)")
    case None
    then have s: "stripCodeBlocks (c # cs) = c # stripCodeBlocks cs" by simp
    show ?thesis
    proof (cases i)
      case 0
      with None have "originalIndex (c # cs) i = 0" by simp
      with 0 s show ?thesis by (simp del: stripCodeBlocks.simps(2) originalIndex.simps(2))
    next
      case (Suc j)
      with None have p: "originalIndex (c # cs) i = Suc (originalIndex cs j)" by simp
      let ?q = "originalIndex cs j"
      from "2.prems" s Suc have j: "j < length (stripCodeBlocks cs)"
        by (simp del: stripCodeBlocks.simps(2))
      from "2.IH"(1) [OF None j] have q: "?q < length cs" "cs ! ?q = stripCodeBlocks cs ! j"
        "countNewlines (take ?q cs) = countNewlines (take j (stripCodeBlocks cs))"
        and sp: "stripCodeBlocks cs ! j \<noteq> CHR 0x0A \<longrightarrow>
          stripCodeBlocks cs = stripCodeBlocks (take ?q cs) @ stripCodeBlocks (drop ?q cs)
          \<and> length (stripCodeBlocks (take ?q cs)) = j"
        by blast+
      have "codeBlockAt (c # take ?q cs) = None"
      proof (cases "codeBlockAt (c # take ?q cs)")
        case None
        then show ?thesis .
      next
        case (Some r)
        obtain m rest where "r = (m, rest)" by (cases r)
        with Some codeBlockAt_append [of "c # take ?q cs" m rest "drop ?q cs"] None show ?thesis by simp
      qed
      then have st: "stripCodeBlocks (c # take ?q cs) = c # stripCodeBlocks (take ?q cs)" by simp
      have a: "originalIndex (c # cs) i < length (c # cs)" using p q(1) by simp
      have b: "(c # cs) ! originalIndex (c # cs) i = stripCodeBlocks (c # cs) ! i"
        using p q(2) s Suc by (simp del: stripCodeBlocks.simps(2) originalIndex.simps(2))
      have cc: "countNewlines (take (originalIndex (c # cs) i) (c # cs)) = countNewlines (take i (stripCodeBlocks (c # cs)))"
        using p q(3) s Suc
        by (simp add: countNewlines_def del: stripCodeBlocks.simps(2) originalIndex.simps(2))
      have d: "stripCodeBlocks (c # cs) = stripCodeBlocks (take (originalIndex (c # cs) i) (c # cs))
            @ stripCodeBlocks (drop (originalIndex (c # cs) i) (c # cs))
          \<and> length (stripCodeBlocks (take (originalIndex (c # cs) i) (c # cs))) = i"
        if "stripCodeBlocks (c # cs) ! i \<noteq> CHR 0x0A"
      proof -
        from that s Suc have "stripCodeBlocks cs ! j \<noteq> CHR 0x0A"
          by (simp del: stripCodeBlocks.simps(2))
        with sp have "stripCodeBlocks cs = stripCodeBlocks (take ?q cs) @ stripCodeBlocks (drop ?q cs)"
          and "length (stripCodeBlocks (take ?q cs)) = j" by simp_all
        with p s st Suc show ?thesis
          by (simp del: stripCodeBlocks.simps(2) originalIndex.simps(2))
      qed
      from a b cc d show ?thesis by blast
    qed
  next
    case (Some r)
    obtain m rest where r: "r = (m, rest)" by (cases r)
    let ?k = "countNewlines m"
    from Some r have doc: "c # cs = m @ rest" by (simp add: codeBlockAt_split)
    from Some r have "stripCodeBlocks (c # cs) = replicate ?k (CHR 0x0A) @ stripCodeBlocks rest" by simp
    then have s: "stripCodeBlocks (m @ rest) = replicate ?k (CHR 0x0A) @ stripCodeBlocks rest"
      unfolding doc .
    from "2.prems" have i: "i < length (stripCodeBlocks (m @ rest))" unfolding doc .
    show ?thesis
    proof (cases "i < ?k")
      case True
      with Some r have "originalIndex (c # cs) i = nthNewline m i" by simp
      then have p: "originalIndex (m @ rest) i = nthNewline m i" unfolding doc .
      from nthNewline_spec [OF True] have n: "nthNewline m i < length m" "m ! nthNewline m i = CHR 0x0A"
        "countNewlines (take (nthNewline m i) m) = i" by simp_all
      from True have si: "stripCodeBlocks (m @ rest) ! i = CHR 0x0A"
        by (simp add: s nth_append)
      have a: "originalIndex (m @ rest) i < length (m @ rest)"
        unfolding p using n(1) by simp
      have b: "(m @ rest) ! originalIndex (m @ rest) i = stripCodeBlocks (m @ rest) ! i"
        unfolding p si using n(1,2) by (simp add: nth_append)
      have "take i (stripCodeBlocks (m @ rest)) = replicate i (CHR 0x0A)"
        using True by (simp add: s)
      then have cc: "countNewlines (take (originalIndex (m @ rest) i) (m @ rest))
          = countNewlines (take i (stripCodeBlocks (m @ rest)))"
        unfolding p using n(1,3) by (simp add: countNewlines_replicate)
      from a b cc si show ?thesis unfolding doc by blast
    next
      case False
      with Some r have "originalIndex (c # cs) i = length m + originalIndex rest (i - ?k)" by simp
      then have p: "originalIndex (m @ rest) i = length m + originalIndex rest (i - ?k)" unfolding doc .
      let ?q = "originalIndex rest (i - ?k)"
      from False i s have j: "i - ?k < length (stripCodeBlocks rest)"
        by auto
      from "2.IH"(2) [OF Some r [symmetric] j] have q: "?q < length rest"
        "rest ! ?q = stripCodeBlocks rest ! (i - ?k)"
        "countNewlines (take ?q rest) = countNewlines (take (i - ?k) (stripCodeBlocks rest))"
        and sp: "stripCodeBlocks rest ! (i - ?k) \<noteq> CHR 0x0A \<longrightarrow>
          stripCodeBlocks rest = stripCodeBlocks (take ?q rest) @ stripCodeBlocks (drop ?q rest)
          \<and> length (stripCodeBlocks (take ?q rest)) = i - ?k"
        by blast+
      from False have si: "stripCodeBlocks (m @ rest) ! i = stripCodeBlocks rest ! (i - ?k)"
        by (simp add: s nth_append)
      from Some r have sb: "stripCodeBlocks (m @ take ?q rest) = replicate ?k (CHR 0x0A) @ stripCodeBlocks (take ?q rest)"
        by (intro strip_block_prefix) simp
      have a: "originalIndex (m @ rest) i < length (m @ rest)"
        unfolding p using q(1) by simp
      have b: "(m @ rest) ! originalIndex (m @ rest) i = stripCodeBlocks (m @ rest) ! i"
        unfolding p si using q(2) by (simp add: nth_append)
      have "take i (stripCodeBlocks (m @ rest)) = replicate ?k (CHR 0x0A) @ take (i - ?k) (stripCodeBlocks rest)"
        using False by (simp add: s)
      then have cc: "countNewlines (take (originalIndex (m @ rest) i) (m @ rest))
          = countNewlines (take i (stripCodeBlocks (m @ rest)))"
        unfolding p using q(3) by (simp add: countNewlines_append countNewlines_replicate)
      have d: "stripCodeBlocks (m @ rest) = stripCodeBlocks (take (originalIndex (m @ rest) i) (m @ rest))
            @ stripCodeBlocks (drop (originalIndex (m @ rest) i) (m @ rest))
          \<and> length (stripCodeBlocks (take (originalIndex (m @ rest) i) (m @ rest))) = i"
        if "stripCodeBlocks (m @ rest) ! i \<noteq> CHR 0x0A"
      proof -
        from that si sp have 1: "stripCodeBlocks rest = stripCodeBlocks (take ?q rest) @ stripCodeBlocks (drop ?q rest)"
          and 2: "length (stripCodeBlocks (take ?q rest)) = i - ?k" by simp_all
        have t: "take (length m + ?q) (m @ rest) = m @ take ?q rest" by simp
        have dr: "drop (length m + ?q) (m @ rest) = drop ?q rest" by simp
        from 1 have "stripCodeBlocks (m @ rest) = stripCodeBlocks (m @ take ?q rest) @ stripCodeBlocks (drop ?q rest)"
          unfolding s sb by simp
        moreover from 2 False have "length (stripCodeBlocks (m @ take ?q rest)) = i"
          unfolding sb by simp
        ultimately show ?thesis unfolding p t dr by simp
      qed
      from a b cc d show ?thesis unfolding doc by blast
    qed
  qed
qed

text \<open>A text in which no fence starts has no closing fence, and a fence that nothing closes is kept.\<close>

lemma fenceFree_no_fence: "fenceFree t \<Longrightarrow> lazyUntilFence t = None"
proof (induction t)
  case Nil
  then show ?case by simp
next
  case (Cons c cs)
  then have "take 3 ((c # cs) @ ''``'') \<noteq> fence" by simp
  then have "take 3 ((c # cs) @ []) \<noteq> fence"
    by (rule no_fence_whatever_follows) simp
  with Cons show ?case by simp
qed

lemma lazyUntilFence_tl: "lazyUntilFence t = None \<Longrightarrow> lazyUntilFence (tl t) = None"
  by (cases t) (auto split: if_splits option.splits)

lemma stripCodeBlocks_unclosed: "lazyUntilFence (drop 3 s) = None \<Longrightarrow> stripCodeBlocks s = s"
proof (induction s)
  case Nil
  then show ?case by simp
next
  case (Cons c cs)
  then have "codeBlockAt (c # cs) = None"
    by (simp add: codeBlockAt_def)
  moreover from Cons.prems have "lazyUntilFence (drop 2 cs) = None" by (simp add: numeral_3_eq_3 numeral_2_eq_2)
  then have "lazyUntilFence (tl (drop 2 cs)) = None" by (rule lazyUntilFence_tl)
  then have "lazyUntilFence (drop 3 cs) = None" by (simp add: tl_drop numeral_3_eq_3 numeral_2_eq_2 drop_Suc)
  ultimately show ?case using Cons.IH by simp
qed

lemma stripCodeBlocks_open_fence:
  assumes "fenceFree plain" and "fenceFree rest"
  shows "stripCodeBlocks (plain @ fence @ rest) = plain @ fence @ rest"
proof -
  have "drop 3 (fence @ rest) = rest" by (simp add: fence_def)
  with fenceFree_no_fence [OF assms(2)] have "stripCodeBlocks (fence @ rest) = fence @ rest"
    by (intro stripCodeBlocks_unclosed) simp
  with stripCodeBlocks_text [OF assms(1), of "fence @ rest"] show ?thesis by simp
qed

text \<open>The links of a loop, with the line of each match computed in the document.\<close>

lemma loop_lines_original:
  assumes starts: "\<forall>p t r. re p t = Some r \<longrightarrow> t \<noteq> [] \<and> startsLink (hd t)"
    and body: "\<And>content i content' i' capture.
      lineNumberAt content i = lineNumberAt content' i' \<Longrightarrow> f content i capture = f content' i' capture"
  shows "concat (map (\<lambda>(index, capture). f (stripCodeBlocks doc) index capture)
             (execAll re None 0 0 (stripCodeBlocks doc)))
       = concat (map (\<lambda>(index, capture). f doc (originalIndex doc index) capture)
             (execAll re None 0 0 (stripCodeBlocks doc)))"
proof -
  have "map (\<lambda>(index, capture). f (stripCodeBlocks doc) index capture) (execAll re None 0 0 (stripCodeBlocks doc))
      = map (\<lambda>(index, capture). f doc (originalIndex doc index) capture) (execAll re None 0 0 (stripCodeBlocks doc))"
  proof (rule map_cong [OF refl])
    fix x
    assume x: "x \<in> set (execAll re None 0 0 (stripCodeBlocks doc))"
    obtain ix cap where xc: "x = (ix, cap)" by (cases x)
    from execAll_positions [OF starts x [unfolded xc]] have i: "ix < length (stripCodeBlocks doc)" by simp
    from originalIndex_spec [OF i]
    have "lineNumberAt (stripCodeBlocks doc) ix = lineNumberAt doc (originalIndex doc ix)"
      by (simp add: lineNumberAt_count)
    then have "f (stripCodeBlocks doc) ix cap = f doc (originalIndex doc ix) cap" by (rule body)
    then show "(\<lambda>(a, b). f (stripCodeBlocks doc) a b) x = (\<lambda>(a, b). f doc (originalIndex doc a) b) x"
      unfolding xc by simp
  qed
  then show ?thesis by (rule arg_cong)
qed

lemma linkOf_by_line:
  "lineNumberAt content i = lineNumberAt content' i' \<Longrightarrow>
   linkOf parse content i capture = linkOf parse content' i' capture"
  by (simp add: linkOf_def split: option.splits)

lemma markdownLinkOf_by_line:
  "lineNumberAt content i = lineNumberAt content' i' \<Longrightarrow>
   markdownLinkOf parse content i capture = markdownLinkOf parse content' i' capture"
  using linkOf_by_line [of content i content' i' parse "extractMarkdownUrl capture"]
  by (simp add: markdownLinkOf_def Let_def)

lemma collectFileLinks_original_lines:
  "collectFileLinks parse doc =
     concat (map (\<lambda>(index, capture). markdownLinkOf parse doc (originalIndex doc index) capture)
               (execAll markdownLinkAt None 0 0 (stripCodeBlocks doc)))
     @ concat (map (\<lambda>(index, capture). linkOf parse doc (originalIndex doc index) capture)
               (execAll autolinkAt None 0 0 (stripCodeBlocks doc)))
     @ concat (map (\<lambda>(index, capture). linkOf parse doc (originalIndex doc index) capture)
               (execAll htmlAnchorAt None 0 0 (stripCodeBlocks doc)))"
proof -
  have ml: "\<forall>p t r. markdownLinkAt p t = Some r \<longrightarrow> t \<noteq> [] \<and> startsLink (hd t)"
    using markdownLinkAt_start by blast
  have al: "\<forall>p t r. autolinkAt p t = Some r \<longrightarrow> t \<noteq> [] \<and> startsLink (hd t)"
    using autolinkAt_start by blast
  have hl: "\<forall>p t r. htmlAnchorAt p t = Some r \<longrightarrow> t \<noteq> [] \<and> startsLink (hd t)"
    using htmlAnchorAt_start by blast
  note 1 = loop_lines_original [of markdownLinkAt "markdownLinkOf parse" doc, OF ml markdownLinkOf_by_line]
  note 2 = loop_lines_original [of autolinkAt "linkOf parse" doc, OF al linkOf_by_line]
  note 3 = loop_lines_original [of htmlAnchorAt "linkOf parse" doc, OF hl linkOf_by_line]
  show ?thesis
    unfolding collectFileLinks_def Let_def markdownLinks_def autolinks_def anchorLinks_def
    by (simp only: 1 2 3)
qed

lemma match_position_original:
  assumes starts: "\<forall>p t r. re p t = Some r \<longrightarrow> t \<noteq> [] \<and> startsLink (hd t)"
    and m: "(ix, cap) \<in> set (execAll re None 0 0 (stripCodeBlocks doc))"
  shows "originalIndex doc ix < length doc
    \<and> doc ! originalIndex doc ix = stripCodeBlocks doc ! ix
    \<and> startsLink (doc ! originalIndex doc ix)
    \<and> stripCodeBlocks doc = stripCodeBlocks (take (originalIndex doc ix) doc)
                              @ stripCodeBlocks (drop (originalIndex doc ix) doc)
    \<and> length (stripCodeBlocks (take (originalIndex doc ix) doc)) = ix
    \<and> lineNumberAt (stripCodeBlocks doc) ix = lineNumberAt doc (originalIndex doc ix)"
proof -
  from execAll_positions [OF starts m] have i: "ix < length (stripCodeBlocks doc)"
    and st: "startsLink (stripCodeBlocks doc ! ix)" by simp_all
  from st have nl: "stripCodeBlocks doc ! ix \<noteq> CHR 0x0A" by (auto simp add: startsLink_def)
  note sp = originalIndex_spec [OF i]
  from sp have a: "originalIndex doc ix < length doc"
    and b: "doc ! originalIndex doc ix = stripCodeBlocks doc ! ix"
    and c: "countNewlines (take (originalIndex doc ix) doc) = countNewlines (take ix (stripCodeBlocks doc))"
    by blast+
  from sp nl have d: "stripCodeBlocks doc = stripCodeBlocks (take (originalIndex doc ix) doc)
        @ stripCodeBlocks (drop (originalIndex doc ix) doc)"
    and e: "length (stripCodeBlocks (take (originalIndex doc ix) doc)) = ix" by blast+
  from c have f: "lineNumberAt (stripCodeBlocks doc) ix = lineNumberAt doc (originalIndex doc ix)"
    by (simp add: lineNumberAt_count)
  from b st have g: "startsLink (doc ! originalIndex doc ix)" by simp
  from a b g d e f show ?thesis by blast
qed

text \<open>
  C2, as the script pairs the delimiters. Stripping keeps the number of line feeds, and
  so the number of lines, of every document. Plain text in which no delimiter starts is
  kept as it is; a delimiter, a body in which no delimiter starts and the next delimiter
  are replaced by the line feeds of the body, and the pairing starts again after them; a
  delimiter after which no delimiter comes stays in the text with all that follows it.
  The links extracted from a document do not depend on the body of such a pair beyond
  the number of its line feeds. The extracted links are those of the three loops over
  the stripped text with the line of each match computed in the document itself, at the
  position of the document where the match starts; that position holds the bracket or
  the angle of the match and lies outside every pair (the stripping of the document
  splits there). Every document has no pair at all, or is plain text, a first pair and
  a rest.
\<close>

theorem stripCodeBlocks_hides_paired_blocks:
  "countNewlines (stripCodeBlocks doc) = countNewlines doc
   \<and> length (splitNewline (stripCodeBlocks doc)) = length (splitNewline doc)
   \<and> (fenceFree plain \<longrightarrow> stripCodeBlocks (plain @ rest) = plain @ stripCodeBlocks rest)
   \<and> (fenceFree body \<longrightarrow>
        stripCodeBlocks (fence @ body @ fence @ rest)
          = replicate (countNewlines body) (CHR 0x0A) @ stripCodeBlocks rest)
   \<and> (fenceFree plain \<and> fenceFree rest \<longrightarrow>
        stripCodeBlocks (plain @ fence @ rest) = plain @ fence @ rest)
   \<and> (fenceFree plain \<and> fenceFree body \<and> fenceFree body' \<and> countNewlines body = countNewlines body' \<longrightarrow>
        collectFileLinks parse (plain @ fence @ body @ fence @ rest)
          = collectFileLinks parse (plain @ fence @ body' @ fence @ rest))
   \<and> collectFileLinks parse doc =
        concat (map (\<lambda>(ix, capture). markdownLinkOf parse doc (originalIndex doc ix) capture)
                  (execAll markdownLinkAt None 0 0 (stripCodeBlocks doc)))
        @ concat (map (\<lambda>(ix, capture). linkOf parse doc (originalIndex doc ix) capture)
                  (execAll autolinkAt None 0 0 (stripCodeBlocks doc)))
        @ concat (map (\<lambda>(ix, capture). linkOf parse doc (originalIndex doc ix) capture)
                  (execAll htmlAnchorAt None 0 0 (stripCodeBlocks doc)))
   \<and> (\<forall>re \<in> {markdownLinkAt, autolinkAt, htmlAnchorAt}.
        \<forall>(ix, capture) \<in> set (execAll re None 0 0 (stripCodeBlocks doc)).
          originalIndex doc ix < length doc
          \<and> doc ! originalIndex doc ix = stripCodeBlocks doc ! ix
          \<and> startsLink (doc ! originalIndex doc ix)
          \<and> stripCodeBlocks doc = stripCodeBlocks (take (originalIndex doc ix) doc)
                                    @ stripCodeBlocks (drop (originalIndex doc ix) doc)
          \<and> length (stripCodeBlocks (take (originalIndex doc ix) doc)) = ix
          \<and> lineNumberAt (stripCodeBlocks doc) ix = lineNumberAt doc (originalIndex doc ix))
   \<and> (stripCodeBlocks doc = doc
        \<or> (\<exists>plain body rest. doc = plain @ fence @ body @ fence @ rest \<and> fenceFree plain \<and> fenceFree body))"
proof -
  have a: "countNewlines (stripCodeBlocks doc) = countNewlines doc"
    by (rule stripCodeBlocks_newlines)
  then have b: "length (splitNewline (stripCodeBlocks doc)) = length (splitNewline doc)"
    by (simp add: splitNewline_length)
  have c: "fenceFree plain \<longrightarrow> stripCodeBlocks (plain @ rest) = plain @ stripCodeBlocks rest"
    by (simp add: stripCodeBlocks_text)
  have d: "fenceFree body \<longrightarrow> stripCodeBlocks (fence @ body @ fence @ rest)
      = replicate (countNewlines body) (CHR 0x0A) @ stripCodeBlocks rest"
    by (simp add: stripCodeBlocks_block)
  have e: "fenceFree plain \<and> fenceFree rest \<longrightarrow> stripCodeBlocks (plain @ fence @ rest) = plain @ fence @ rest"
    by (simp add: stripCodeBlocks_open_fence)
  have f: "fenceFree plain \<and> fenceFree body \<and> fenceFree body' \<and> countNewlines body = countNewlines body' \<longrightarrow>
      collectFileLinks parse (plain @ fence @ body @ fence @ rest)
        = collectFileLinks parse (plain @ fence @ body' @ fence @ rest)"
  proof
    assume h: "fenceFree plain \<and> fenceFree body \<and> fenceFree body' \<and> countNewlines body = countNewlines body'"
    then have "stripCodeBlocks (plain @ fence @ body @ fence @ rest)
        = stripCodeBlocks (plain @ fence @ body' @ fence @ rest)"
      by (simp add: stripCodeBlocks_text stripCodeBlocks_block)
    then show "collectFileLinks parse (plain @ fence @ body @ fence @ rest)
        = collectFileLinks parse (plain @ fence @ body' @ fence @ rest)"
      by (simp add: collectFileLinks_def)
  qed
  note g = collectFileLinks_original_lines [of parse doc]
  have ml: "\<forall>p t r. markdownLinkAt p t = Some r \<longrightarrow> t \<noteq> [] \<and> startsLink (hd t)"
    using markdownLinkAt_start by blast
  have al: "\<forall>p t r. autolinkAt p t = Some r \<longrightarrow> t \<noteq> [] \<and> startsLink (hd t)"
    using autolinkAt_start by blast
  have hl: "\<forall>p t r. htmlAnchorAt p t = Some r \<longrightarrow> t \<noteq> [] \<and> startsLink (hd t)"
    using htmlAnchorAt_start by blast
  have h: "\<forall>re \<in> {markdownLinkAt, autolinkAt, htmlAnchorAt}.
      \<forall>(ix, capture) \<in> set (execAll re None 0 0 (stripCodeBlocks doc)).
        originalIndex doc ix < length doc
        \<and> doc ! originalIndex doc ix = stripCodeBlocks doc ! ix
        \<and> startsLink (doc ! originalIndex doc ix)
        \<and> stripCodeBlocks doc = stripCodeBlocks (take (originalIndex doc ix) doc)
                                  @ stripCodeBlocks (drop (originalIndex doc ix) doc)
        \<and> length (stripCodeBlocks (take (originalIndex doc ix) doc)) = ix
        \<and> lineNumberAt (stripCodeBlocks doc) ix = lineNumberAt doc (originalIndex doc ix)"
  proof (intro ballI)
    fix re x
    assume re: "re \<in> {markdownLinkAt, autolinkAt, htmlAnchorAt}"
      and x: "x \<in> set (execAll re None 0 0 (stripCodeBlocks doc))"
    from re ml al hl have st: "\<forall>p t r. re p t = Some r \<longrightarrow> t \<noteq> [] \<and> startsLink (hd t)"
      by blast
    obtain ix cap where xc: "x = (ix, cap)" by (cases x)
    from match_position_original [OF st x [unfolded xc]]
    show "case x of (ix, capture) \<Rightarrow>
        originalIndex doc ix < length doc
        \<and> doc ! originalIndex doc ix = stripCodeBlocks doc ! ix
        \<and> startsLink (doc ! originalIndex doc ix)
        \<and> stripCodeBlocks doc = stripCodeBlocks (take (originalIndex doc ix) doc)
                                  @ stripCodeBlocks (drop (originalIndex doc ix) doc)
        \<and> length (stripCodeBlocks (take (originalIndex doc ix) doc)) = ix
        \<and> lineNumberAt (stripCodeBlocks doc) ix = lineNumberAt doc (originalIndex doc ix)"
      unfolding xc prod.case .
  qed
  note i = first_block [of doc]
  from a b c d e f g h i show ?thesis by (intro conjI)
qed

theorem stripCodeBlocks_hides_paired_blocks_witness:
  "fenceFree ''see [a](https://x.com/)\<newline>''
   \<and> fenceFree ''js\<newline>[b](https://gone.example/)\<newline>''
   \<and> stripCodeBlocks (''see [a](https://x.com/)\<newline>'' @ fence @ ''js\<newline>[b](https://gone.example/)\<newline>''
          @ fence @ ''\<newline>[c](https://down.example/)'')
      = ''see [a](https://x.com/)\<newline>\<newline>\<newline>\<newline>[c](https://down.example/)''
   \<and> collectFileLinks sampleURL (''see [a](https://x.com/)\<newline>'' @ fence @ ''js\<newline>[b](https://gone.example/)\<newline>''
          @ fence @ ''\<newline>[c](https://down.example/)'')
      = [(''https://x.com/'', 1), (''https://down.example/'', 5)]
   \<and> collectFileLinks sampleURL (''see [a](https://x.com/)\<newline>'' @ fence @ ''\<newline>\<newline>''
          @ fence @ ''\<newline>[c](https://down.example/)'')
      = [(''https://x.com/'', 1), (''https://down.example/'', 5)]
   \<and> stripCodeBlocks (''see [a](https://x.com/)\<newline>'' @ fence @ ''js\<newline>[b](https://gone.example/)\<newline>'')
      = ''see [a](https://x.com/)\<newline>'' @ fence @ ''js\<newline>[b](https://gone.example/)\<newline>''
   \<and> execAll markdownLinkAt None 0 0 ''see [a](https://x.com/)\<newline>\<newline>\<newline>\<newline>[c](https://down.example/)''
      = [(4, ''https://x.com/''), (27, ''https://down.example/'')]
   \<and> originalIndex (''see [a](https://x.com/)\<newline>'' @ fence @ ''js\<newline>[b](https://gone.example/)\<newline>''
          @ fence @ ''\<newline>[c](https://down.example/)'') 27 = 61
   \<and> (''see [a](https://x.com/)\<newline>'' @ fence @ ''js\<newline>[b](https://gone.example/)\<newline>''
          @ fence @ ''\<newline>[c](https://down.example/)'') ! 61 = CHR ''[''
   \<and> lineNumberAt ''see [a](https://x.com/)\<newline>\<newline>\<newline>\<newline>[c](https://down.example/)'' 27 = 5
   \<and> lineNumberAt (''see [a](https://x.com/)\<newline>'' @ fence @ ''js\<newline>[b](https://gone.example/)\<newline>''
          @ fence @ ''\<newline>[c](https://down.example/)'') 61 = 5"
proof -
  let ?plain = "''see [a](https://x.com/)\<newline>''"
  let ?body = "''js\<newline>[b](https://gone.example/)\<newline>''"
  let ?rest = "''\<newline>[c](https://down.example/)''"
  let ?doc = "?plain @ fence @ ?body @ fence @ ?rest"
  let ?stripped = "''see [a](https://x.com/)\<newline>\<newline>\<newline>\<newline>[c](https://down.example/)''"
  have p: "fenceFree ?plain" by code_simp
  have b: "fenceFree ?body" by code_simp
  have b': "fenceFree ''\<newline>\<newline>''" by code_simp
  have r: "fenceFree ?rest" by code_simp
  have n: "countNewlines ?body = 2" by code_simp
  have n': "countNewlines ?body = countNewlines ''\<newline>\<newline>''" by code_simp
  note t = stripCodeBlocks_hides_paired_blocks
  note t3 = t [THEN conjunct2, THEN conjunct2, THEN conjunct1, THEN mp]
  note t4 = t [THEN conjunct2, THEN conjunct2, THEN conjunct2, THEN conjunct1, THEN mp]
  note t5 = t [THEN conjunct2, THEN conjunct2, THEN conjunct2, THEN conjunct2, THEN conjunct1, THEN mp]
  note t6 = t [THEN conjunct2, THEN conjunct2, THEN conjunct2, THEN conjunct2, THEN conjunct2,
      THEN conjunct1, THEN mp]
  from p have 1: "stripCodeBlocks (?plain @ fence @ ?body @ fence @ ?rest)
      = ?plain @ stripCodeBlocks (fence @ ?body @ fence @ ?rest)"
    by (rule t3)
  from b have 2: "stripCodeBlocks (fence @ ?body @ fence @ ?rest)
      = replicate (countNewlines ?body) (CHR 0x0A) @ stripCodeBlocks ?rest"
    by (rule t4)
  from r have 3: "stripCodeBlocks (?rest @ []) = ?rest @ stripCodeBlocks []"
    by (rule t3)
  from 1 2 3 n have s: "stripCodeBlocks ?doc = ?stripped"
    by (simp add: numeral_2_eq_2)
  have l: "collectFileLinks sampleURL ?doc = [(''https://x.com/'', 1), (''https://down.example/'', 5)]"
    by code_simp
  from p b b' n' have "fenceFree ?plain \<and> fenceFree ?body \<and> fenceFree ''\<newline>\<newline>''
      \<and> countNewlines ?body = countNewlines ''\<newline>\<newline>''"
    by (intro conjI)
  then have "collectFileLinks sampleURL ?doc
      = collectFileLinks sampleURL (?plain @ fence @ ''\<newline>\<newline>'' @ fence @ ?rest)"
    by (rule t6)
  with l have l': "collectFileLinks sampleURL (?plain @ fence @ ''\<newline>\<newline>'' @ fence @ ?rest)
      = [(''https://x.com/'', 1), (''https://down.example/'', 5)]"
    by simp
  from p b have "fenceFree ?plain \<and> fenceFree ?body" by (intro conjI)
  then have o: "stripCodeBlocks (?plain @ fence @ ?body) = ?plain @ fence @ ?body"
    by (rule t5)
  have ms: "execAll markdownLinkAt None 0 0 ?stripped = [(4, ''https://x.com/''), (27, ''https://down.example/'')]"
    by code_simp
  have oi: "originalIndex ?doc 27 = 61"
    by code_simp
  have "markdownLinkAt \<in> {markdownLinkAt, autolinkAt, htmlAnchorAt}" by (rule insertI1)
  from t [where doc = ?doc, THEN conjunct2, THEN conjunct2, THEN conjunct2, THEN conjunct2, THEN conjunct2,
      THEN conjunct2, THEN conjunct2, THEN conjunct1, THEN bspec, OF this]
  have every: "\<forall>(ix, capture) \<in> set (execAll markdownLinkAt None 0 0 (stripCodeBlocks ?doc)).
        originalIndex ?doc ix < length ?doc
        \<and> ?doc ! originalIndex ?doc ix = stripCodeBlocks ?doc ! ix
        \<and> startsLink (?doc ! originalIndex ?doc ix)
        \<and> stripCodeBlocks ?doc = stripCodeBlocks (take (originalIndex ?doc ix) ?doc)
                                  @ stripCodeBlocks (drop (originalIndex ?doc ix) ?doc)
        \<and> length (stripCodeBlocks (take (originalIndex ?doc ix) ?doc)) = ix
        \<and> lineNumberAt (stripCodeBlocks ?doc) ix = lineNumberAt ?doc (originalIndex ?doc ix)" .
  have "(27, ''https://down.example/'') \<in> set (execAll markdownLinkAt None 0 0 (stripCodeBlocks ?doc))"
    unfolding s ms by simp
  from every [THEN bspec, OF this]
  have here: "originalIndex ?doc 27 < length ?doc
        \<and> ?doc ! originalIndex ?doc 27 = stripCodeBlocks ?doc ! 27
        \<and> startsLink (?doc ! originalIndex ?doc 27)
        \<and> stripCodeBlocks ?doc = stripCodeBlocks (take (originalIndex ?doc 27) ?doc)
                                  @ stripCodeBlocks (drop (originalIndex ?doc 27) ?doc)
        \<and> length (stripCodeBlocks (take (originalIndex ?doc 27) ?doc)) = 27
        \<and> lineNumberAt (stripCodeBlocks ?doc) 27 = lineNumberAt ?doc (originalIndex ?doc 27)"
    unfolding prod.case .
  from here have "?doc ! originalIndex ?doc 27 = stripCodeBlocks ?doc ! 27"
    by (elim conjE)
  then have at: "?doc ! 61 = ?stripped ! 27" unfolding oi s .
  from here have "lineNumberAt (stripCodeBlocks ?doc) 27 = lineNumberAt ?doc (originalIndex ?doc 27)"
    by (elim conjE)
  then have ln: "lineNumberAt ?stripped 27 = lineNumberAt ?doc 61" unfolding oi s .
  have "?stripped ! 27 = CHR ''[''" by code_simp
  with at have ch: "?doc ! 61 = CHR ''[''" by simp
  have i: "lineNumberAt ?doc 61 = 5"
    by code_simp
  from ln i have i': "lineNumberAt ?stripped 27 = 5" by simp
  from p b s l l' o ms oi ch i' i show ?thesis by (intro conjI)
qed

text \<open>
  C2 as the claim states it fails: in this document the second delimiter opens a fenced
  block and the third closes it, and the link on line 3 stands between them; the script
  pairs the delimiter mentioned in the first line with the second, and extracts the link.
\<close>

theorem link_inside_fenced_block_counterexample:
  "collectFileLinks sampleURL
      (''Use '' @ fence @ '' to open a block.\<newline>'' @ fence @ ''\<newline>[a](https://x.com/)\<newline>'' @ fence @ ''\<newline>'')
     = [(''https://x.com/'', 3)]"
  by code_simp

section \<open>Properties of the filter\<close>

lemma toExternalHttpUrl_Some:
  "toExternalHttpUrl parse raw = Some u \<Longrightarrow> externalHttp parse u"
  unfolding toExternalHttpUrl_def externalHttp_def Let_def
  by (auto split: if_splits option.splits)

lemma linkOf_external:
  "l \<in> set (linkOf parse content i t) \<Longrightarrow> externalHttp parse (fst l) \<and> \<not> isImageUrl parse (fst l)"
proof (cases "toExternalHttpUrl parse t")
  case None
  assume "l \<in> set (linkOf parse content i t)"
  with None show ?thesis by (simp add: linkOf_def)
next
  case (Some u)
  assume "l \<in> set (linkOf parse content i t)"
  with Some have "\<not> isImageUrl parse u" and "fst l = u"
    by (auto simp add: linkOf_def split: if_splits)
  with toExternalHttpUrl_Some [OF Some] show ?thesis by simp
qed

lemma markdownLinkOf_external:
  "l \<in> set (markdownLinkOf parse content i t) \<Longrightarrow> externalHttp parse (fst l) \<and> \<not> isImageUrl parse (fst l)"
  by (auto simp add: markdownLinkOf_def Let_def dest: linkOf_external split: if_splits)

lemma collectFileLinks_external:
  assumes "l \<in> set (collectFileLinks parse doc)"
  shows "externalHttp parse (fst l) \<and> \<not> isImageUrl parse (fst l)"
proof -
  let ?c = "stripCodeBlocks doc"
  from assms have "l \<in> set (markdownLinks parse ?c) \<or> l \<in> set (autolinks parse ?c) \<or> l \<in> set (anchorLinks parse ?c)"
    by (simp add: collectFileLinks_def Let_def)
  then show ?thesis
  proof (elim disjE)
    assume "l \<in> set (markdownLinks parse ?c)"
    then obtain i t where "l \<in> set (markdownLinkOf parse ?c i t)"
      by (auto simp add: markdownLinks_def)
    then show ?thesis by (rule markdownLinkOf_external)
  next
    assume "l \<in> set (autolinks parse ?c)"
    then obtain i t where "l \<in> set (linkOf parse ?c i t)"
      by (auto simp add: autolinks_def)
    then show ?thesis by (rule linkOf_external)
  next
    assume "l \<in> set (anchorLinks parse ?c)"
    then obtain i t where "l \<in> set (linkOf parse ?c i t)"
      by (auto simp add: anchorLinks_def)
    then show ?thesis by (rule linkOf_external)
  qed
qed

lemma encounters_external:
  "e \<in> set (encounters parse files) \<Longrightarrow> externalHttp parse (fst e) \<and> \<not> isImageUrl parse (fst e)"
proof -
  assume "e \<in> set (encounters parse files)"
  then obtain doc l where "l \<in> set (collectFileLinks parse doc)" and "fst e = fst l"
    by (auto simp add: encounters_def split_beta)
  with collectFileLinks_external [of l parse doc] show ?thesis by simp
qed

lemma uniqueUrls_external:
  "u \<in> set (uniqueUrls (scanFiles parse files)) \<Longrightarrow> externalHttp parse u \<and> \<not> isImageUrl parse u"
proof -
  assume "u \<in> set (uniqueUrls (scanFiles parse files))"
  then have "u \<in> fst ` set (encounters parse files)"
    by (simp add: uniqueUrls_def scanFiles_encounters foldl_addEncounter_keys)
  then show ?thesis by (auto dest: encounters_external)
qed

text \<open>Only checked URLs are reported.\<close>

lemma main_reports_checked_urls:
  assumes "main parse net localeCompare files schedule = Some failed"
  shows "set (map url failed) \<subseteq> set (uniqueUrls (scanFiles parse files))"
proof -
  let ?m = "scanFiles parse files"
  let ?st = "runWithConcurrency (uniqueUrls ?m) MAX_CONCURRENCY schedule"
  from assms have f: "failed = sortFailed localeCompare (failedOf net ?m (settled ?st))"
    by (auto simp add: main_def Let_def split: if_splits)
  have "pool_inv (uniqueUrls ?m) ?st"
    using spawn_inv [of "uniqueUrls ?m" MAX_CONCURRENCY] by (simp add: runWithConcurrency_def run_inv)
  then have "invoked ?st = take (index ?st) (uniqueUrls ?m)"
    and "mset (invoked ?st) = mset (settled ?st) + sum_list (map held (workers ?st))"
    unfolding pool_inv_def by blast+
  then have "set (settled ?st) \<subseteq> set (uniqueUrls ?m)"
    by (metis mset_subset_eq_add_left set_mset_mono set_mset_mset set_take_subset subset_trans)
  moreover have "set (map url failed) = set (map url (failedOf net ?m (settled ?st)))"
    by (metis f mset_sortFailed mset_map set_mset_mset)
  then have "set (map url failed) \<subseteq> set (settled ?st)"
    by (simp only: failedOf_urls) auto
  ultimately show ?thesis by blast
qed


text \<open>
  C5: a target that does not parse, or whose scheme is neither http nor https, or whose
  host is localhost, is dropped: \<open>toExternalHttpUrl\<close> returns \<open>null\<close>, no loop makes a link of
  it, and so every URL that is checked, and every URL that is reported, is the
  serialization of a target that parsed with the scheme http or https and another host.
\<close>

theorem toExternalHttpUrl_drops_silently:
  "(parse (trim raw) = None \<longrightarrow> toExternalHttpUrl parse raw = None)
   \<and> (parse (trim raw) = Some parsed \<and> protocol parsed \<noteq> ''http:'' \<and> protocol parsed \<noteq> ''https:'' \<longrightarrow>
        toExternalHttpUrl parse raw = None)
   \<and> (parse (trim raw) = Some parsed \<and> hostname parsed = ''localhost'' \<longrightarrow>
        toExternalHttpUrl parse raw = None)
   \<and> (toExternalHttpUrl parse raw = None \<longrightarrow> linkOf parse content i raw = [])
   \<and> (toExternalHttpUrl parse (extractMarkdownUrl capture) = None \<longrightarrow>
        markdownLinkOf parse content i capture = [])
   \<and> (\<forall>u \<in> set (uniqueUrls (scanFiles parse files)). externalHttp parse u)
   \<and> (main parse net localeCompare files schedule = Some failed \<longrightarrow>
        (\<forall>r \<in> set failed. externalHttp parse (url r)))"
proof -
  have a: "toExternalHttpUrl parse raw = None" if "parse (trim raw) = None"
    using that by (simp add: toExternalHttpUrl_def Let_def)
  have b: "toExternalHttpUrl parse raw = None"
    if "parse (trim raw) = Some parsed \<and> protocol parsed \<noteq> ''http:'' \<and> protocol parsed \<noteq> ''https:''"
    using that by (simp add: toExternalHttpUrl_def Let_def)
  have c: "toExternalHttpUrl parse raw = None"
    if "parse (trim raw) = Some parsed \<and> hostname parsed = ''localhost''"
    using that by (simp add: toExternalHttpUrl_def Let_def)
  have d: "linkOf parse content i raw = []" if "toExternalHttpUrl parse raw = None"
    using that by (simp add: linkOf_def)
  have e: "markdownLinkOf parse content i capture = []"
    if "toExternalHttpUrl parse (extractMarkdownUrl capture) = None"
    using that by (simp add: markdownLinkOf_def linkOf_def Let_def)
  have f: "\<forall>u \<in> set (uniqueUrls (scanFiles parse files)). externalHttp parse u"
    by (simp add: uniqueUrls_external)
  have g: "\<forall>r \<in> set failed. externalHttp parse (url r)"
    if "main parse net localeCompare files schedule = Some failed"
  proof
    fix r assume "r \<in> set failed"
    then have "url r \<in> set (map url failed)" by simp
    with main_reports_checked_urls [OF that] have "url r \<in> set (uniqueUrls (scanFiles parse files))"
      by blast
    then show "externalHttp parse (url r)" by (simp add: uniqueUrls_external)
  qed
  from a b c d e f g show ?thesis by blast
qed

theorem toExternalHttpUrl_drops_silently_witness:
  "sampleURL (trim ''/docs/page'') = None
   \<and> toExternalHttpUrl sampleURL ''/docs/page'' = None
   \<and> toExternalHttpUrl sampleURL ''mailto:team@x.com'' = None
   \<and> toExternalHttpUrl sampleURL ''http://localhost/x'' = None
   \<and> linkOf sampleURL [] 0 ''/docs/page'' = []
   \<and> markdownLinkOf sampleURL [] 0 '' /docs/page '' = []
   \<and> collectFileLinks sampleURL
        ''[a](/docs/page) [m](mailto:team@x.com) <http://localhost/x> [ok](https://x.com/)''
      = [(''https://x.com/'', 1)]
   \<and> uniqueUrls (scanFiles sampleURL
        [(''a.md'', ''[a](/docs/page) [m](mailto:team@x.com) <http://localhost/x> [ok](https://x.com/)'')])
      = [''https://x.com/'']
   \<and> externalHttp sampleURL ''https://x.com/''
   \<and> main sampleURL demo_net codeUnitCompare [(''a.md'', ''[a](/docs/page) [g](https://gone.example/)'')] [0]
      = Some [\<lparr>url = ''https://gone.example/'', reason = ''HTTP 404'', occurrences = [\<lparr>file = ''a.md'', line = 1\<rparr>]\<rparr>]
   \<and> externalHttp sampleURL ''https://gone.example/''"
proof -
  note t = toExternalHttpUrl_drops_silently
  have p: "sampleURL (trim ''/docs/page'') = None" by code_simp
  have m: "sampleURL (trim ''mailto:team@x.com'')
      = Some \<lparr>protocol = ''mailto:'', hostname = [], pathname = ''team@x.com'', href = ''mailto:team@x.com''\<rparr>"
    by code_simp
  have h: "sampleURL (trim ''http://localhost/x'') = Some (http_url ''http:'' ''localhost'' ''/x'' [])"
    by code_simp
  from t [of sampleURL "''/docs/page''"] p
  have 1: "toExternalHttpUrl sampleURL ''/docs/page'' = None" by blast
  from t [of sampleURL "''mailto:team@x.com''"
      "\<lparr>protocol = ''mailto:'', hostname = [], pathname = ''team@x.com'', href = ''mailto:team@x.com''\<rparr>"] m
  have 2: "toExternalHttpUrl sampleURL ''mailto:team@x.com'' = None" by simp
  from t [of sampleURL "''http://localhost/x''" "http_url ''http:'' ''localhost'' ''/x'' []"] h
  have 3: "toExternalHttpUrl sampleURL ''http://localhost/x'' = None" by (simp add: http_url_def)
  from t [of sampleURL "''/docs/page''" _ "[]" 0] 1
  have 4: "linkOf sampleURL [] 0 ''/docs/page'' = []" by blast
  have 5: "collectFileLinks sampleURL
        ''[a](/docs/page) [m](mailto:team@x.com) <http://localhost/x> [ok](https://x.com/)''
      = [(''https://x.com/'', 1)]"
    by code_simp
  have e: "toExternalHttpUrl sampleURL (extractMarkdownUrl '' /docs/page '') = None"
    by code_simp
  from t [of sampleURL _ _ "[]" 0 "'' /docs/page ''"] e
  have 6: "markdownLinkOf sampleURL [] 0 '' /docs/page '' = []" by blast
  let ?files = "[(''a.md'', ''[a](/docs/page) [m](mailto:team@x.com) <http://localhost/x> [ok](https://x.com/)'')]"
  have 7: "uniqueUrls (scanFiles sampleURL ?files) = [''https://x.com/'']"
    by code_simp
  from t [of sampleURL _ _ _ _ _ ?files]
  have "\<forall>u \<in> set (uniqueUrls (scanFiles sampleURL ?files)). externalHttp sampleURL u"
    by blast
  then have 8: "externalHttp sampleURL ''https://x.com/''"
    by (simp add: 7)
  let ?other = "[(''a.md'', ''[a](/docs/page) [g](https://gone.example/)'')]"
  let ?m = "[(''https://gone.example/'', [\<lparr>file = ''a.md'', line = 1\<rparr>])]"
  let ?report = "[\<lparr>url = ''https://gone.example/'', reason = ''HTTP 404'', occurrences = [\<lparr>file = ''a.md'', line = 1\<rparr>]\<rparr>]"
  have m: "scanFiles sampleURL ?other = ?m"
    by code_simp
  have u: "uniqueUrls ?m = [''https://gone.example/'']"
    by (simp add: uniqueUrls_def)
  have r: "resolved (runWithConcurrency [''https://gone.example/''] MAX_CONCURRENCY [0])"
    by code_simp
  have s: "settled (runWithConcurrency [''https://gone.example/''] MAX_CONCURRENCY [0]) = [''https://gone.example/'']"
    by code_simp
  have f: "sortFailed codeUnitCompare (failedOf demo_net ?m [''https://gone.example/'']) = ?report"
    by code_simp
  have 9: "main sampleURL demo_net codeUnitCompare ?other [0] = Some ?report"
    unfolding main_def Let_def m u by (simp only: r s f if_True)
  from t [where parse = sampleURL and files = ?other and net = demo_net
      and localeCompare = codeUnitCompare and schedule = "[0]" and failed = ?report] 9
  have "\<forall>r \<in> set ?report. externalHttp sampleURL (url r)"
    by blast
  then have 10: "externalHttp sampleURL ''https://gone.example/''"
    by simp
  from p 1 2 3 4 6 5 7 8 9 10 show ?thesis by (intro conjI)
qed

section \<open>Properties of the record key\<close>

text \<open>
  C10: the key of a record, which is also the URL that is checked, is the serialization
  of the parsed target and not the text of the target: two targets that parse to the
  same URL give links with the same key, and the scan keeps one record for the key,
  with the occurrences of both. Normalizing is idempotent wherever the parser maps the
  serialization back to the URL it came from (the round trip of the WHATWG standard).
\<close>

theorem normalized_url_is_record_key:
  "(parse (trim a) = parse (trim b) \<and> trim a \<noteq> [] \<and> trim b \<noteq> [] \<longrightarrow>
      toExternalHttpUrl parse a = toExternalHttpUrl parse b
      \<and> map fst (linkOf parse content i a) = map fst (linkOf parse content' j b))
   \<and> (toExternalHttpUrl parse a = Some k \<longrightarrow> (\<exists>parsed. parse (trim a) = Some parsed \<and> k = href parsed))
   \<and> (\<forall>u \<in> set (uniqueUrls (scanFiles parse files)).
        \<exists>target parsed. parse (trim target) = Some parsed \<and> u = href parsed)
   \<and> distinct (uniqueUrls (scanFiles parse files))
   \<and> map_of (scanFiles parse files) k =
        (if occurrencesOf k (encounters parse files) = [] then None
         else Some (occurrencesOf k (encounters parse files)))
   \<and> (toExternalHttpUrl parse raw = Some k \<and> k \<noteq> [] \<and> trim k = k \<and> parse k = parse (trim raw) \<longrightarrow>
        toExternalHttpUrl parse k = Some k)"
proof -
  have 1: "toExternalHttpUrl parse a = toExternalHttpUrl parse b
      \<and> map fst (linkOf parse content i a) = map fst (linkOf parse content' j b)"
    if "parse (trim a) = parse (trim b) \<and> trim a \<noteq> [] \<and> trim b \<noteq> []"
  proof -
    from that have e: "toExternalHttpUrl parse a = toExternalHttpUrl parse b"
      by (simp add: toExternalHttpUrl_def Let_def)
    then have "map fst (linkOf parse content i a) = map fst (linkOf parse content' j b)"
      by (simp add: linkOf_def split: option.splits)
    with e show ?thesis by simp
  qed
  have 2: "\<exists>parsed. parse (trim a) = Some parsed \<and> k = href parsed" if "toExternalHttpUrl parse a = Some k"
    using that unfolding toExternalHttpUrl_def Let_def
    by (auto split: if_splits option.splits)
  have 3: "\<forall>u \<in> set (uniqueUrls (scanFiles parse files)).
      \<exists>target parsed. parse (trim target) = Some parsed \<and> u = href parsed"
  proof
    fix u assume "u \<in> set (uniqueUrls (scanFiles parse files))"
    then have "externalHttp parse u" by (simp add: uniqueUrls_external)
    then show "\<exists>target parsed. parse (trim target) = Some parsed \<and> u = href parsed"
      unfolding externalHttp_def by blast
  qed
  have 4: "distinct (uniqueUrls (scanFiles parse files))"
    by (rule scanFiles_distinct)
  have 5: "map_of (scanFiles parse files) k =
      (if occurrencesOf k (encounters parse files) = [] then None
       else Some (occurrencesOf k (encounters parse files)))"
    by (simp add: scanFiles_encounters foldl_addEncounter_map_of)
  have 6: "toExternalHttpUrl parse k = Some k"
    if "toExternalHttpUrl parse raw = Some k \<and> k \<noteq> [] \<and> trim k = k \<and> parse k = parse (trim raw)"
  proof -
    from that have r: "toExternalHttpUrl parse raw = Some k" and k: "k \<noteq> []" "trim k = k"
      and p: "parse k = parse (trim raw)" by simp_all
    from r have "trim raw \<noteq> []"
      by (auto simp add: toExternalHttpUrl_def Let_def split: if_splits)
    with r p k show ?thesis
      by (simp add: toExternalHttpUrl_def Let_def)
  qed
  from 1 2 3 4 5 6 show ?thesis by blast
qed

theorem normalized_url_is_record_key_witness:
  "sampleURL (trim ''https://x.com'') = sampleURL (trim ''https://x.com/'')
   \<and> toExternalHttpUrl sampleURL ''https://x.com'' = Some ''https://x.com/''
   \<and> toExternalHttpUrl sampleURL ''https://x.com/'' = Some ''https://x.com/''
   \<and> (\<exists>parsed. sampleURL (trim ''https://x.com'') = Some parsed \<and> ''https://x.com/'' = href parsed)
   \<and> scanFiles sampleURL [(''a.md'', ''[a](https://x.com)\<newline>[b](https://x.com/)'')]
      = [(''https://x.com/'', [\<lparr>file = ''a.md'', line = 1\<rparr>, \<lparr>file = ''a.md'', line = 2\<rparr>])]"
proof -
  note t = normalized_url_is_record_key
  have p: "sampleURL (trim ''https://x.com'') = sampleURL (trim ''https://x.com/'')"
    by code_simp
  have n: "trim ''https://x.com'' \<noteq> [] \<and> trim ''https://x.com/'' \<noteq> []"
    by code_simp
  have a: "toExternalHttpUrl sampleURL ''https://x.com'' = Some ''https://x.com/''"
    by code_simp
  from t [of sampleURL "''https://x.com''" "''https://x.com/''"] p n
  have "toExternalHttpUrl sampleURL ''https://x.com'' = toExternalHttpUrl sampleURL ''https://x.com/''"
    by blast
  with a have b: "toExternalHttpUrl sampleURL ''https://x.com/'' = Some ''https://x.com/''"
    by simp
  have k: "''https://x.com/'' \<noteq> [] \<and> trim ''https://x.com/'' = ''https://x.com/''
      \<and> sampleURL ''https://x.com/'' = sampleURL (trim ''https://x.com'')"
    by code_simp
  from t [of sampleURL _ _ _ _ _ _ "''https://x.com/''" _ "''https://x.com''"] a k
  have c: "toExternalHttpUrl sampleURL ''https://x.com/'' = Some ''https://x.com/''"
    by blast
  have s: "scanFiles sampleURL [(''a.md'', ''[a](https://x.com)\<newline>[b](https://x.com/)'')]
      = [(''https://x.com/'', [\<lparr>file = ''a.md'', line = 1\<rparr>, \<lparr>file = ''a.md'', line = 2\<rparr>])]"
    by code_simp
  from t [of sampleURL "''https://x.com''" _ _ _ _ _ "''https://x.com/''"] a
  have h: "\<exists>parsed. sampleURL (trim ''https://x.com'') = Some parsed \<and> ''https://x.com/'' = href parsed"
    by blast
  from p a b c h s show ?thesis by (intro conjI)
qed

section \<open>Images\<close>

text \<open>
  C4, where the code differs from the claim: a linked image, an image reference inside
  the text of a markdown link. The match of the link starts at the outer bracket and
  ends at the parenthesis of the image, so the URL of the image is extracted as a link
  (and the target of the link is not).
\<close>

theorem linked_image_url_is_extracted:
  "collectFileLinks sampleURL ''[![build](https://ci.example.com/badge)](https://x.com/)''
     = [(''https://ci.example.com/badge'', 1)]"
  by code_simp

text \<open>What the code does hold to: the bracket of an image never starts a link.\<close>

lemma image_bracket_starts_no_link: "markdownLinkAt (Some (CHR ''!'')) s = None"
  by (simp add: markdownLinkAt_def)

text \<open>A URL that \<open>isImageUrl\<close> takes for an image gives no link, in any of the three loops.\<close>

lemma image_url_gives_no_link:
  "toExternalHttpUrl parse target = Some u \<Longrightarrow> isImageUrl parse u \<Longrightarrow>
   linkOf parse content i target = []"
  by (simp add: linkOf_def)

lemma no_collected_link_is_an_image:
  "l \<in> set (collectFileLinks parse doc) \<Longrightarrow> \<not> isImageUrl parse (fst l)"
  by (simp add: collectFileLinks_external)

text \<open>
  The extension is read by \<open>path.extname\<close> from the path without query and fragment, in
  any case of the letters; a last segment that is nothing but a dot and an extension
  has no extension for \<open>path.extname\<close>.
\<close>

lemma image_url_examples:
  "isImageUrl sampleURL ''https://x.com/a.png?x=1'' \<and> \<not> isImageUrl sampleURL ''https://x.com/.png''
   \<and> collectFileLinks sampleURL ''[p](https://x.com/a.png?x=1) <https://x.com/a.png>'' = []"
  by code_simp

end
